theory Spec2Isabelle
  imports Main
begin

section \<open>Python values\<close>

text \<open>
  The file \<^verbatim>\<open>rnn_tensorflow.ipynb\<close> holds two versions of one Python 3.6 notebook:
  the first has \<^verbatim>\<open>padDataBatch\<close> and \<^verbatim>\<open>train\<close>, the second the windowing loop and
  \<^verbatim>\<open>generate_seq\<close>; both clean the corpus and build the vocabulary the same way.
  A Python \<^verbatim>\<open>str\<close> is a \<^typ>\<open>string\<close> (the alphabet the notebook prints for its
  corpus is ASCII); iterating over a string yields its characters, each one a string
  of length one, written \<open>[c]\<close> here. A Python \<^verbatim>\<open>int\<close> is an \<^typ>\<open>int\<close>; lengths,
  the window width and the number of characters to generate are sizes and are
  \<^typ>\<open>nat\<close>. Every exception the modelled code can raise is a value of \<open>error\<close>.
\<close>

datatype error = KeyError | IndexError | ValueError | UnboundLocalError | OverflowError

text \<open>
  A \<^verbatim>\<open>dict\<close> keeps its keys in insertion order (\<^verbatim>\<open>mapping.items()\<close> is iterated in
  \<^verbatim>\<open>generate_seq\<close>), so it is an association list: \<open>d[k]\<close> raises \<^verbatim>\<open>KeyError\<close>
  on a missing key, \<open>d[k] = v\<close> overwrites in place or appends.
\<close>

fun dict_get :: "('k \<times> 'v) list \<Rightarrow> 'k \<Rightarrow> error + 'v" where
  "dict_get [] k = Inl KeyError"
| "dict_get ((k', v) # d) k = (if k' = k then Inr v else dict_get d k)"

fun dict_set :: "('k \<times> 'v) list \<Rightarrow> 'k \<Rightarrow> 'v \<Rightarrow> ('k \<times> 'v) list" where
  "dict_set [] k v = [(k, v)]"
| "dict_set ((k', v') # d) k v =
     (if k' = k then (k, v) # d else (k', v') # dict_set d k v)"

text \<open>A list comprehension whose body may raise stops at the first exception.\<close>

fun mapM :: "('a \<Rightarrow> error + 'b) \<Rightarrow> 'a list \<Rightarrow> error + 'b list" where
  "mapM f [] = Inr []"
| "mapM f (x # xs) =
     (case f x of
        Inl e \<Rightarrow> Inl e
      | Inr y \<Rightarrow> (case mapM f xs of Inl e \<Rightarrow> Inl e | Inr ys \<Rightarrow> Inr (y # ys)))"

section \<open>Corpus preprocessing\<close>

text \<open>
  \<^verbatim>\<open>
  def removeChars(text):
    for char in ['\x08', '\x10', '~', '^']:
      text = text.replace(char, '')
    return text

  all_jokes.Joke = all_jokes.Joke.apply(lambda x: removeChars(x))
  text = '\n'.join(all_jokes.Joke)
  chars = list(set(text))
  all_jokes.Joke = all_jokes.Joke.apply(lambda x: '~' + x + '^')
  \<close>
\<close>

definition replace_empty :: "char \<Rightarrow> string \<Rightarrow> string" where
  \<comment> \<open>\<^verbatim>\<open>text.replace(char, '')\<close> for a one-character \<^verbatim>\<open>char\<close>\<close>
  "replace_empty c text = filter (\<lambda>x. x \<noteq> c) text"

definition removeChars :: "string \<Rightarrow> string" where
  "removeChars text =
     fold replace_empty [CHR 0x08, CHR 0x10, CHR ''~'', CHR ''^''] text"

definition mark :: "string \<Rightarrow> string" where
  \<comment> \<open>\<^verbatim>\<open>lambda x: '~' + x + '^'\<close>\<close>
  "mark x = ''~'' @ x @ ''^''"

fun join :: "string \<Rightarrow> string list \<Rightarrow> string" where
  "join sep [] = []"
| "join sep [x] = x"
| "join sep (x # y # ys) = x @ sep @ join sep (y # ys)"

definition cleaned_jokes :: "string list \<Rightarrow> string list" where
  "cleaned_jokes jokes = map removeChars jokes"

definition corpus_text :: "string list \<Rightarrow> string" where
  \<comment> \<open>the variable \<^verbatim>\<open>text\<close>: the cleaned jokes joined by newlines\<close>
  "corpus_text jokes = join [CHR 0x0A] (cleaned_jokes jokes)"

definition marked_jokes :: "string list \<Rightarrow> string list" where
  "marked_jokes jokes = map mark (cleaned_jokes jokes)"

text \<open>
  \<^verbatim>\<open>chars = list(set(text))\<close> lists every distinct character of the text once, in an
  order Python does not specify. The model does not fix that order: \<open>chars\<close> is any list
  for which \<open>list_of_set chars text\<close> holds.
\<close>

definition list_of_set :: "char list \<Rightarrow> string \<Rightarrow> bool" where
  "list_of_set chars text = (distinct chars \<and> set chars = set text)"

section \<open>Vocabulary\<close>

text \<open>
  \<^verbatim>\<open>
  char_labels = {ch:i+3 for i, ch in enumerate(chars)}
  labels_char = {i+3:ch for i, ch in enumerate(chars)}
  char_labels['PAD'] = 0;  labels_char[0] = 'PAD'
  char_labels['~'] = 1;    labels_char[1] = '~'
  char_labels['^'] = 2;    labels_char[2] = '^'
  \<close>
\<close>

definition char_labels_init :: "char list \<Rightarrow> (string \<times> int) list" where
  "char_labels_init chars =
     fold (\<lambda>(i, ch) d. dict_set d [ch] (int i + 3)) (enumerate 0 chars) []"

definition labels_char_init :: "char list \<Rightarrow> (int \<times> string) list" where
  "labels_char_init chars =
     fold (\<lambda>(i, ch) d. dict_set d (int i + 3) [ch]) (enumerate 0 chars) []"

definition char_labels :: "char list \<Rightarrow> (string \<times> int) list" where
  "char_labels chars =
     dict_set (dict_set (dict_set (char_labels_init chars) ''PAD'' 0) ''~'' 1) ''^'' 2"

definition labels_char :: "char list \<Rightarrow> (int \<times> string) list" where
  "labels_char chars =
     dict_set (dict_set (dict_set (labels_char_init chars) 0 ''PAD'') 1 ''~'') 2 ''^''"

section \<open>Library calls\<close>

text \<open>
  Both \<^verbatim>\<open>pad_sequences\<close> (\<^verbatim>\<open>dtype='int32'\<close> by default) and \<^verbatim>\<open>padDataBatch\<close>
  (\<^verbatim>\<open>dtype="int32"\<close>) store integers in arrays of 32-bit integers. numpy takes an
  integer of the 64-bit range and keeps its low 32 bits, read as a signed number; an
  integer outside the 64-bit range raises \<^verbatim>\<open>OverflowError\<close>.
\<close>

definition wrap_int32 :: "int \<Rightarrow> int" where
  "wrap_int32 c = (c + 2147483648) mod 4294967296 - 2147483648"

definition as_int32 :: "int \<Rightarrow> error + int" where
  "as_int32 c =
     (if - 9223372036854775808 \<le> c \<and> c < 9223372036854775808
      then Inr (wrap_int32 c) else Inl OverflowError)"

text \<open>
  Two Keras functions are called by the notebook; they are modelled for the way they
  are called.

  \<^verbatim>\<open>pad_sequences([encoded], maxlen=seq_length, truncating='pre')\<close>, one sequence,
  padding \<^verbatim>\<open>'pre'\<close> with the value 0:
  \<^verbatim>\<open>
  x = np.full((num_samples, maxlen), value, dtype=dtype)
  for idx, s in enumerate(sequences):
      if not len(s):
          continue
      trunc = s[-maxlen:]
      trunc = np.asarray(trunc, dtype=dtype)
      x[idx, -len(trunc):] = trunc
  return x
  \<close>
  Python reads \<^verbatim>\<open>s[-0:]\<close> as the whole of \<^verbatim>\<open>s\<close>. The assignment stores \<^verbatim>\<open>trunc\<close>
  into the last \<^verbatim>\<open>len(trunc)\<close> places of the row; when the row has the width 0 that
  slice is empty, and numpy broadcasts a \<^verbatim>\<open>trunc\<close> of one entry into it (nothing is
  stored) but refuses a \<^verbatim>\<open>trunc\<close> of two entries or more.
\<close>

definition pad_sequences :: "int list \<Rightarrow> nat \<Rightarrow> error + int list" where
  "pad_sequences s maxlen =
     (let x = replicate maxlen 0 in
      if s = [] then Inr x
      else
        (case mapM as_int32 (if maxlen = 0 then s else drop (length s - maxlen) s) of
           Inl e \<Rightarrow> Inl e
         | Inr trunc \<Rightarrow>
             if length trunc \<le> maxlen then Inr (take (maxlen - length trunc) x @ trunc)
             else if length trunc = 1 then Inr x
             else Inl ValueError))"

text \<open>
  \<^verbatim>\<open>to_categorical(y, num_classes)\<close> flattens \<^verbatim>\<open>y\<close> and writes one row per entry:
  \<^verbatim>\<open>
  y = y.ravel()
  if not num_classes:
      num_classes = np.max(y) + 1
  n = y.shape[0]
  categorical = np.zeros((n, num_classes), dtype=dtype)
  categorical[np.arange(n), y] = 1
  \<close>
  An index outside \<open>[-num_classes, num_classes)\<close> raises \<^verbatim>\<open>IndexError\<close>, a negative one
  inside counts from the end. The entries 0.0 and 1.0 are written 0 and 1. The result
  is the list of rows; the shape the rows are arranged in afterwards is not modelled.
\<close>

definition one_hot :: "nat \<Rightarrow> int \<Rightarrow> error + int list" where
  "one_hot num_classes y =
     (if - int num_classes \<le> y \<and> y < int num_classes
      then Inr ((replicate num_classes 0)
                  [nat (if y < 0 then y + int num_classes else y) := 1])
      else Inl IndexError)"

definition to_categorical :: "int list \<Rightarrow> nat \<Rightarrow> error + int list list" where
  "to_categorical y num_classes =
     (if num_classes = 0 then
        (if y = [] then Inl ValueError
         else if Max (set y) + 1 < 0 then Inl ValueError
         else mapM (one_hot (nat (Max (set y) + 1))) y)
      else mapM (one_hot num_classes) y)"

text \<open>
  \<^verbatim>\<open>np.pad(utter, ((0, k)), mode='constant')\<close> appends \<open>k\<close> zeros and rejects a
  negative \<open>k\<close>.
\<close>

definition np_pad_after :: "int list \<Rightarrow> int \<Rightarrow> error + int list" where
  "np_pad_after utter k =
     (if k < 0 then Inl ValueError else Inr (utter @ replicate (nat k) 0))"

text \<open>\<^verbatim>\<open>input_seq[idxs]\<close>: numpy indexing by an array of indices.\<close>

definition np_index :: "'a list \<Rightarrow> nat list \<Rightarrow> error + 'a list" where
  "np_index xs idxs =
     mapM (\<lambda>i. if i < length xs then Inr (xs ! i) else Inl IndexError) idxs"

section \<open>Training windows\<close>

text \<open>
  \<^verbatim>\<open>
  x_data = [[char_labels[char] for char in z] for z in all_jokes.Joke]
  max_len=20
  input_sequences = []
  labels = []
  for seq in tqdm(x_data[:100000]):
    seq = [1]*max_len + seq + [2]
    for i in range(len(seq)):
      if i+max_len < len(seq):
        input_sequences.append(to_categorical(seq[i:i+max_len], num_classes=len(char_labels)))
        labels.append(seq[i+max_len])
  \<close>
  The jokes are the marked ones here: the cell that marks them has run before. The
  window width \<^verbatim>\<open>max_len\<close> is a parameter of the model.
\<close>

definition encode_text :: "(string \<times> int) list \<Rightarrow> string \<Rightarrow> error + int list" where
  \<comment> \<open>\<^verbatim>\<open>[mapping[char] for char in in_text]\<close>\<close>
  "encode_text mapping in_text = mapM (\<lambda>char. dict_get mapping [char]) in_text"

definition x_data :: "(string \<times> int) list \<Rightarrow> string list \<Rightarrow> error + int list list" where
  "x_data mapping jokes = mapM (encode_text mapping) jokes"

fun window_loop ::
  "nat \<Rightarrow> nat \<Rightarrow> int list \<Rightarrow> nat list \<Rightarrow> int list list list \<times> int list \<Rightarrow>
   error + int list list list \<times> int list" where
  "window_loop max_len num_classes seq [] st = Inr st"
| "window_loop max_len num_classes seq (i # is) (input_sequences, labels) =
     (if i + max_len < length seq then
        (case to_categorical (take max_len (drop i seq)) num_classes of
           Inl e \<Rightarrow> Inl e
         | Inr w \<Rightarrow>
             window_loop max_len num_classes seq is
               (input_sequences @ [w], labels @ [seq ! (i + max_len)]))
      else window_loop max_len num_classes seq is (input_sequences, labels))"

definition seq_windows ::
  "nat \<Rightarrow> nat \<Rightarrow> int list \<Rightarrow> int list list list \<times> int list \<Rightarrow>
   error + int list list list \<times> int list" where
  \<comment> \<open>the body of the outer loop for one \<^verbatim>\<open>seq\<close>\<close>
  "seq_windows max_len num_classes seq0 st =
     (let seq = replicate max_len 1 @ seq0 @ [2]
      in window_loop max_len num_classes seq [0..<length seq] st)"

fun seq_loop ::
  "nat \<Rightarrow> nat \<Rightarrow> int list list \<Rightarrow> int list list list \<times> int list \<Rightarrow>
   error + int list list list \<times> int list" where
  "seq_loop max_len num_classes [] st = Inr st"
| "seq_loop max_len num_classes (seq0 # rest) st =
     (case seq_windows max_len num_classes seq0 st of
        Inl e \<Rightarrow> Inl e
      | Inr st' \<Rightarrow> seq_loop max_len num_classes rest st')"

definition training_windows ::
  "(string \<times> int) list \<Rightarrow> nat \<Rightarrow> string list \<Rightarrow> error + int list list list \<times> int list" where
  \<comment> \<open>the loops of the cell, from the marked jokes to the lists \<^verbatim>\<open>input_sequences\<close>
     and \<^verbatim>\<open>labels\<close>, before the cell turns the two lists into arrays\<close>
  "training_windows mapping max_len jokes =
     (case x_data mapping jokes of
        Inl e \<Rightarrow> Inl e
      | Inr xs \<Rightarrow> seq_loop max_len (length mapping) (take 100000 xs) ([], []))"

section \<open>Generation\<close>

text \<open>
  \<^verbatim>\<open>
  def generate_seq(model, mapping, seq_length, seed_text, n_chars):
    in_text = seed_text
    for _ in range(n_chars):
      encoded = [mapping[char] for char in in_text]
      encoded = pad_sequences([encoded], maxlen=seq_length, truncating='pre')
      encoded = to_categorical(encoded, num_classes=len(mapping))
      yhat = model.predict_classes(encoded, verbose=0)
      out_char = ''
      for char, index in mapping.items():
        if index == yhat:
          out_char = char
          break
      in_text += char
    return in_text
  \<close>
  The model is any function from the one-hot window to a class index. The reverse
  lookup binds two variables, \<^verbatim>\<open>out_char\<close> and the loop variable \<^verbatim>\<open>char\<close>; the
  statement after the loop appends \<^verbatim>\<open>char\<close>. The variable of the list comprehension
  is local to it in Python 3, so \<^verbatim>\<open>char\<close> is unbound until the reverse lookup has
  visited an item.
\<close>

fun lookup_loop ::
  "(string \<times> int) list \<Rightarrow> int \<Rightarrow> string \<times> string option \<Rightarrow> string \<times> string option" where
  "lookup_loop [] yhat (out_char, char) = (out_char, char)"
| "lookup_loop ((c, index) # items) yhat (out_char, char) =
     (if index = yhat then (c, Some c)
      else lookup_loop items yhat (out_char, Some c))"

definition generate_step ::
  "(int list list \<Rightarrow> int) \<Rightarrow> (string \<times> int) list \<Rightarrow> nat \<Rightarrow> string \<times> string option \<Rightarrow>
   error + string \<times> string option" where
  "generate_step model mapping seq_length st =
     (case st of (in_text, char) \<Rightarrow>
      (case encode_text mapping in_text of
         Inl e \<Rightarrow> Inl e
       | Inr encoded \<Rightarrow>
      (case pad_sequences encoded seq_length of
         Inl e \<Rightarrow> Inl e
       | Inr padded \<Rightarrow>
      (case to_categorical padded (length mapping) of
         Inl e \<Rightarrow> Inl e
       | Inr onehot \<Rightarrow>
      (case lookup_loop mapping (model onehot) ([], char) of
         (out_char, None) \<Rightarrow> Inl UnboundLocalError
       | (out_char, Some c) \<Rightarrow> Inr (in_text @ c, Some c))))))"

fun generate_loop ::
  "(int list list \<Rightarrow> int) \<Rightarrow> (string \<times> int) list \<Rightarrow> nat \<Rightarrow> nat \<Rightarrow> string \<times> string option \<Rightarrow>
   error + string \<times> string option" where
  "generate_loop model mapping seq_length 0 st = Inr st"
| "generate_loop model mapping seq_length (Suc n) st =
     (case generate_step model mapping seq_length st of
        Inl e \<Rightarrow> Inl e
      | Inr st' \<Rightarrow> generate_loop model mapping seq_length n st')"

definition generate_seq ::
  "(int list list \<Rightarrow> int) \<Rightarrow> (string \<times> int) list \<Rightarrow> nat \<Rightarrow> string \<Rightarrow> nat \<Rightarrow> error + string" where
  "generate_seq model mapping seq_length seed_text n_chars =
     (case generate_loop model mapping seq_length n_chars (seed_text, None) of
        Inl e \<Rightarrow> Inl e
      | Inr (in_text, char) \<Rightarrow> Inr in_text)"

section \<open>Mini-batches\<close>

text \<open>
  \<^verbatim>\<open>
  def padDataBatch(data, labels):
      seq_lengths = np.array([utter.shape[0] for utter in data])
      maxlen = max(seq_lengths)
      x_data = np.array([np.pad(utter, ((0, maxlen-utter.shape[0])), mode='constant') for utter in data], dtype="int32")
      y_data = np.array([np.pad(utter, ((0, maxlen-utter.shape[0])), mode='constant') for utter in labels], dtype="int32")
      to_categorical(x_data, num_classes=97)
      return x_data, seq_lengths, y_data
  \<close>
  \<^verbatim>\<open>max\<close> of an empty batch raises \<^verbatim>\<open>ValueError\<close>. Each of the two statements
  that follow pads every row first and then stores the padded rows in an array of
  32-bit integers; the padded rows are \<open>x_rows\<close> and \<open>y_rows\<close> here, the local arrays
  \<^verbatim>\<open>x_data\<close> and \<^verbatim>\<open>y_data\<close> are \<open>x_cast\<close> and \<open>y_cast\<close>. The result of
  \<^verbatim>\<open>to_categorical\<close>, which reads the stored array, is dropped, an exception it raises
  is not.
\<close>

definition padDataBatch ::
  "int list list \<Rightarrow> int list list \<Rightarrow> error + int list list \<times> nat list \<times> int list list" where
  "padDataBatch data labels =
     (let seq_lengths = map length data in
      if seq_lengths = [] then Inl ValueError
      else
        let maxlen = Max (set seq_lengths) in
        (case mapM (\<lambda>utter. np_pad_after utter (int maxlen - int (length utter))) data of
           Inl e \<Rightarrow> Inl e
         | Inr x_rows \<Rightarrow>
        (case mapM (mapM as_int32) x_rows of
           Inl e \<Rightarrow> Inl e
         | Inr x_cast \<Rightarrow>
        (case mapM (\<lambda>utter. np_pad_after utter (int maxlen - int (length utter))) labels of
           Inl e \<Rightarrow> Inl e
         | Inr y_rows \<Rightarrow>
        (case mapM (mapM as_int32) y_rows of
           Inl e \<Rightarrow> Inl e
         | Inr y_cast \<Rightarrow>
        (case to_categorical (concat x_cast) 97 of
           Inl e \<Rightarrow> Inl e
         | Inr c \<Rightarrow> Inr (x_cast, seq_lengths, y_cast)))))))"

text \<open>
  One pass of \<^verbatim>\<open>train\<close> over the data, after \<^verbatim>\<open>np.random.shuffle(all_idxs)\<close>:
  \<^verbatim>\<open>
  losses = []
  for i in tqdm(range(0, len(all_idxs), batch_size)):
      idxs = all_idxs[i:i+batch_size]
      batch_data, batch_lens, batch_y = padDataBatch(input_seq[idxs], output_seq[idxs])
      loss = sess.run([model.loss], feed_dict={model.x:batch_data, model.y:batch_y,
                                               model.seq_lengths:batch_lens})
      losses.append(loss)
  \<close>
  The shuffled \<^verbatim>\<open>all_idxs\<close> and the session (a function from the fed batch to a loss)
  are parameters; \<^verbatim>\<open>batch_size\<close> is 128.
\<close>

fun batch_loop ::
  "(int list list \<times> nat list \<times> int list list \<Rightarrow> 'l) \<Rightarrow> nat \<Rightarrow> nat list \<Rightarrow>
   int list list \<Rightarrow> int list list \<Rightarrow> nat list \<Rightarrow> 'l list \<Rightarrow> error + 'l list" where
  "batch_loop run batch_size all_idxs input_seq output_seq [] losses = Inr losses"
| "batch_loop run batch_size all_idxs input_seq output_seq (i # is) losses =
     (let idxs = take batch_size (drop i all_idxs) in
      (case np_index input_seq idxs of
         Inl e \<Rightarrow> Inl e
       | Inr data \<Rightarrow>
      (case np_index output_seq idxs of
         Inl e \<Rightarrow> Inl e
       | Inr labels \<Rightarrow>
      (case padDataBatch data labels of
         Inl e \<Rightarrow> Inl e
       | Inr batch \<Rightarrow>
           batch_loop run batch_size all_idxs input_seq output_seq is
             (losses @ [run batch])))))"

definition train_epoch ::
  "(int list list \<times> nat list \<times> int list list \<Rightarrow> 'l) \<Rightarrow> nat list \<Rightarrow>
   int list list \<Rightarrow> int list list \<Rightarrow> error + 'l list" where
  "train_epoch run all_idxs input_seq output_seq =
     batch_loop run 128 all_idxs input_seq output_seq
       (map (\<lambda>j. j * 128) [0..<(length all_idxs + 127) div 128]) []"

section \<open>Properties of the preprocessing\<close>

lemma set_replace_empty: "set (replace_empty c text) = set text - {c}"
  by (auto simp: replace_empty_def)

lemma set_removeChars:
  "set (removeChars text) = set text - {CHR 0x08, CHR 0x10, CHR ''~'', CHR ''^''}"
  by (auto simp: removeChars_def set_replace_empty)

lemma count_list_append: "count_list (xs @ ys) c = count_list xs c + count_list ys c"
  by (induction xs) auto

section \<open>Properties of the vocabulary construction\<close>

lemma dict_set_fresh: "k \<notin> fst ` set d \<Longrightarrow> dict_set d k v = d @ [(k, v)]"
  by (induction d) auto

lemma dict_get_member:
  "distinct (map fst d) \<Longrightarrow> (k, v) \<in> set d \<Longrightarrow> dict_get d k = Inr v"
  by (induction d) (auto simp: rev_image_eqI)

lemma dict_get_missing: "k \<notin> fst ` set d \<Longrightarrow> dict_get d k = Inl KeyError"
  by (induction d) auto

lemma dict_get_Inr: "dict_get d k = Inr v \<Longrightarrow> (k, v) \<in> set d"
  by (induction d) (auto split: if_splits)

lemma lookup_loop_member:
  "distinct (map snd d) \<Longrightarrow> (k, v) \<in> set d \<Longrightarrow> lookup_loop d v (oc, ch) = (k, Some k)"
  by (induction d arbitrary: oc ch) (auto simp: rev_image_eqI)

lemma lookup_loop_found:
  "v \<in> snd ` set d \<Longrightarrow> \<exists>k. (k, v) \<in> set d \<and> lookup_loop d v (oc, ch) = (k, Some k)"
proof (induction d arbitrary: oc ch)
  case Nil
  then show ?case by simp
next
  case (Cons p d)
  obtain c i where p: "p = (c, i)" by (cases p)
  show ?case
  proof (cases "i = v")
    case True
    then show ?thesis by (auto simp: p)
  next
    case False
    then have "v \<in> snd ` set d" using Cons.prems p by auto
    from Cons.IH [OF this, of oc "Some c"] False show ?thesis by (auto simp: p)
  qed
qed

lemma lookup_loop_missing:
  "v \<notin> snd ` set d \<Longrightarrow> d \<noteq> [] \<Longrightarrow> lookup_loop d v (oc, ch) = (oc, Some (fst (last d)))"
  by (induction d arbitrary: oc ch) auto

lemma char_labels_fold:
  "distinct xs \<Longrightarrow> \<forall>c\<in>set xs. [c] \<notin> fst ` set d \<Longrightarrow>
   fold (\<lambda>(i, ch) d. dict_set d [ch] (int i + 3)) (enumerate n xs) d =
   d @ map (\<lambda>(i, ch). ([ch], int i + 3)) (enumerate n xs)"
proof (induction xs arbitrary: n d)
  case Nil
  then show ?case by simp
next
  case (Cons x xs)
  have fresh: "[x] \<notin> fst ` set d" using Cons.prems by simp
  have "\<forall>c\<in>set xs. [c] \<notin> fst ` set (d @ [([x], int n + 3)])"
    using Cons.prems by auto
  with Cons.IH [of "d @ [([x], int n + 3)]" "Suc n"] Cons.prems fresh show ?case
    by (simp add: dict_set_fresh)
qed

lemma char_labels_init_eq:
  "distinct chars \<Longrightarrow>
   char_labels_init chars = map (\<lambda>(i, ch). ([ch], int i + 3)) (enumerate 0 chars)"
  unfolding char_labels_init_def using char_labels_fold [of chars "[]" 0] by simp

lemma labels_char_fold:
  "\<forall>k\<in>fst ` set d. k < int n + 3 \<Longrightarrow>
   fold (\<lambda>(i, ch) d. dict_set d (int i + 3) [ch]) (enumerate n xs) d =
   d @ map (\<lambda>(i, ch). (int i + 3, [ch])) (enumerate n xs)"
proof (induction xs arbitrary: n d)
  case Nil
  then show ?case by simp
next
  case (Cons x xs)
  have fresh: "int n + 3 \<notin> fst ` set d" using Cons.prems by auto
  have "\<forall>k\<in>fst ` set (d @ [(int n + 3, [x])]). k < int (Suc n) + 3"
    using Cons.prems by auto
  with Cons.IH [of "d @ [(int n + 3, [x])]" "Suc n"] fresh show ?case
    by (simp add: dict_set_fresh)
qed

lemma labels_char_init_eq:
  "labels_char_init chars = map (\<lambda>(i, ch). (int i + 3, [ch])) (enumerate 0 chars)"
  unfolding labels_char_init_def using labels_char_fold [of "[]" 0 chars] by simp

lemma keys_enumerate:
  "map fst (map (\<lambda>(i, ch). ([ch], int i + 3)) (enumerate n xs)) = map (\<lambda>c. [c]) xs"
  by (induction xs arbitrary: n) auto

lemma codes_enumerate:
  "map snd (map (\<lambda>(i, ch). ([ch], int i + 3)) (enumerate n xs)) =
   map (\<lambda>i. int i + 3) [n..<n + length xs]"
  by (induction xs arbitrary: n) (auto simp: upt_rec)

lemma char_labels_eq:
  assumes "distinct chars" "CHR ''~'' \<notin> set chars" "CHR ''^'' \<notin> set chars"
  shows "char_labels chars =
     map (\<lambda>(i, ch). ([ch], int i + 3)) (enumerate 0 chars) @
     [(''PAD'', 0), (''~'', 1), (''^'', 2)]"
proof -
  let ?m = "map (\<lambda>(i, ch). ([ch], int i + 3)) (enumerate 0 chars)"
  have keys: "fst ` set ?m = (\<lambda>c. [c]) ` set chars"
    using keys_enumerate [of 0 chars] by (metis list.set_map)
  have k1: "''PAD'' \<notin> fst ` set ?m" unfolding keys by auto
  have k2: "''~'' \<notin> fst ` set ?m" unfolding keys using assms(2) by auto
  have k3: "''^'' \<notin> fst ` set ?m" unfolding keys using assms(3) by auto
  have 1: "dict_set ?m ''PAD'' 0 = ?m @ [(''PAD'', 0)]"
    by (rule dict_set_fresh [OF k1])
  have "''~'' \<notin> fst ` set (?m @ [(''PAD'', 0)])" using k2 by simp
  then have 2: "dict_set (?m @ [(''PAD'', 0)]) ''~'' 1 = ?m @ [(''PAD'', 0), (''~'', 1)]"
    using dict_set_fresh [of "''~''" "?m @ [(''PAD'', 0)]" 1] by simp
  have "''^'' \<notin> fst ` set (?m @ [(''PAD'', 0), (''~'', 1)])" using k3 by simp
  then have 3: "dict_set (?m @ [(''PAD'', 0), (''~'', 1)]) ''^'' 2 =
           ?m @ [(''PAD'', 0), (''~'', 1), (''^'', 2)]"
    using dict_set_fresh [of "''^''" "?m @ [(''PAD'', 0), (''~'', 1)]" 2] by simp
  show ?thesis
    unfolding char_labels_def char_labels_init_eq [OF assms(1)] 1 2 3 ..
qed

lemma labels_char_eq:
  "labels_char chars =
     map (\<lambda>(i, ch). (int i + 3, [ch])) (enumerate 0 chars) @
     [(0, ''PAD''), (1, ''~''), (2, ''^'')]"
proof -
  let ?m = "map (\<lambda>(i, ch). (int i + 3, [ch])) (enumerate 0 chars)"
  have keys: "\<forall>k\<in>fst ` set ?m. 3 \<le> k"
    by (auto simp: in_set_enumerate_eq)
  have 1: "dict_set ?m 0 ''PAD'' = ?m @ [(0, ''PAD'')]"
    by (rule dict_set_fresh) (use keys in force)
  have 2: "dict_set (?m @ [(0, ''PAD'')]) 1 ''~'' = ?m @ [(0, ''PAD''), (1, ''~'')]"
    using dict_set_fresh [of 1 "?m @ [(0, ''PAD'')]" "''~''"] keys by force
  have 3: "dict_set (?m @ [(0, ''PAD''), (1, ''~'')]) 2 ''^'' =
           ?m @ [(0, ''PAD''), (1, ''~''), (2, ''^'')]"
    using dict_set_fresh [of 2 "?m @ [(0, ''PAD''), (1, ''~'')]" "''^''"] keys by force
  show ?thesis
    unfolding labels_char_def labels_char_init_eq 1 2 3 ..
qed


lemma labels_enumerate_fst:
  "map fst (map (\<lambda>(i, ch). (int i + 3, [ch])) (enumerate n xs)) =
   map (\<lambda>i. int i + 3) [n..<n + length xs]"
  by (induction xs arbitrary: n) (auto simp: upt_rec)

lemma char_labels_keys:
  assumes "distinct chars" "CHR ''~'' \<notin> set chars" "CHR ''^'' \<notin> set chars"
  shows "map fst (char_labels chars) = map (\<lambda>c. [c]) chars @ [''PAD'', ''~'', ''^'']"
  by (simp add: char_labels_eq [OF assms] keys_enumerate del: map_map)

lemma char_labels_codes:
  assumes "distinct chars" "CHR ''~'' \<notin> set chars" "CHR ''^'' \<notin> set chars"
  shows "map snd (char_labels chars) = map (\<lambda>i. int i + 3) [0..<length chars] @ [0, 1, 2]"
  using codes_enumerate [of 0 chars] by (simp add: char_labels_eq [OF assms] del: map_map)

lemma labels_char_keys:
  "map fst (labels_char chars) = map (\<lambda>i. int i + 3) [0..<length chars] @ [0, 1, 2]"
  using labels_enumerate_fst [of 0 chars] by (simp add: labels_char_eq del: map_map)

lemma enumerate_set: "set (enumerate 0 xs) = (\<lambda>j. (j, xs ! j)) ` {0..<length xs}"
proof -
  have "enumerate 0 xs = map (\<lambda>j. (j, xs ! j)) [0..<length xs]"
    by (simp add: enumerate_eq_zip zip_eq_conv map_nth comp_def)
  then show ?thesis by simp
qed

lemma char_labels_set:
  assumes "distinct chars" "CHR ''~'' \<notin> set chars" "CHR ''^'' \<notin> set chars"
  shows "(key, k) \<in> set (char_labels chars) \<longleftrightarrow>
     (\<exists>j<length chars. key = [chars ! j] \<and> k = int j + 3) \<or>
     (key, k) \<in> {(''PAD'', 0), (''~'', 1), (''^'', 2)}"
  unfolding char_labels_eq [OF assms] by (auto simp: enumerate_set)

lemma labels_char_set:
  "(k, key) \<in> set (labels_char chars) \<longleftrightarrow>
     (\<exists>j<length chars. key = [chars ! j] \<and> k = int j + 3) \<or>
     (k, key) \<in> {(0, ''PAD''), (1, ''~''), (2, ''^'')}"
  unfolding labels_char_eq by (auto simp: enumerate_set)

lemma char_labels_distinct_keys:
  assumes "distinct chars" "CHR ''~'' \<notin> set chars" "CHR ''^'' \<notin> set chars"
  shows "distinct (map fst (char_labels chars))"
  unfolding char_labels_keys [OF assms]
  using assms by (auto simp: distinct_map inj_on_def)

lemma codes_distinct: "distinct (map (\<lambda>i. int i + 3) [0..<n] @ [0, 1, 2])"
  by (auto simp: distinct_map inj_on_def)

lemma char_labels_distinct_codes:
  assumes "distinct chars" "CHR ''~'' \<notin> set chars" "CHR ''^'' \<notin> set chars"
  shows "distinct (map snd (char_labels chars))"
  unfolding char_labels_codes [OF assms] by (rule codes_distinct)

lemma labels_char_distinct_keys: "distinct (map fst (labels_char chars))"
  unfolding labels_char_keys by (rule codes_distinct)

lemma codes_range: "set (map (\<lambda>i. int i + 3) [0..<n] @ [0, 1, 2]) = {0..<int n + 3}"
proof -
  have "k \<in> (\<lambda>i. int i + 3) ` {0..<n} \<longleftrightarrow> 3 \<le> k \<and> k < int n + 3" for k
  proof
    assume "k \<in> (\<lambda>i. int i + 3) ` {0..<n}"
    then show "3 \<le> k \<and> k < int n + 3" by auto
  next
    assume "3 \<le> k \<and> k < int n + 3"
    then have "nat (k - 3) \<in> {0..<n}" "k = int (nat (k - 3)) + 3" by auto
    then show "k \<in> (\<lambda>i. int i + 3) ` {0..<n}" by blast
  qed
  then show ?thesis by auto
qed

lemma set_join_upper: "set (join sep xs) \<subseteq> set sep \<union> \<Union> (set ` set xs)"
  by (induction sep xs rule: join.induct) auto

lemma set_join_lower: "x \<in> set xs \<Longrightarrow> set x \<subseteq> set (join sep xs)"
  by (induction sep xs rule: join.induct) auto

lemma corpus_text_clean:
  "CHR ''~'' \<notin> set (corpus_text jokes)" "CHR ''^'' \<notin> set (corpus_text jokes)"
  using set_join_upper [of "[CHR 0x0A]" "cleaned_jokes jokes"]
  by (auto simp: corpus_text_def cleaned_jokes_def set_removeChars)

lemma corpus_text_joke:
  "x \<in> set jokes \<Longrightarrow> set (removeChars x) \<subseteq> set (corpus_text jokes)"
  unfolding corpus_text_def cleaned_jokes_def by (rule set_join_lower) simp

lemma list_of_set_clean:
  assumes "list_of_set chars (corpus_text jokes)"
  shows "distinct chars" "CHR ''~'' \<notin> set chars" "CHR ''^'' \<notin> set chars"
  using assms corpus_text_clean [of jokes] by (auto simp: list_of_set_def)

section \<open>Properties of the generation loop\<close>

lemma mapM_Inr: "(\<And>x. x \<in> set xs \<Longrightarrow> f x = Inr (g x)) \<Longrightarrow> mapM f xs = Inr (map g xs)"
  by (induction xs) auto

lemma mapM_Inr_D:
  "mapM f xs = Inr ys \<Longrightarrow> length ys = length xs \<and> (\<forall>i<length xs. f (xs ! i) = Inr (ys ! i))"
proof (induction xs arbitrary: ys)
  case Nil
  then show ?case by simp
next
  case (Cons x xs)
  from Cons.prems obtain y ys' where y: "f x = Inr y" and ys': "mapM f xs = Inr ys'"
    and ys: "ys = y # ys'"
    by (auto split: sum.splits)
  from Cons.IH [OF ys'] y ys show ?case by (auto simp: nth_Cons')
qed

lemma dict_get_key:
  "k \<in> fst ` set d \<Longrightarrow> \<exists>v. dict_get d k = Inr v \<and> (k, v) \<in> set d"
  by (induction d) force+

lemma encode_text_ok:
  assumes "\<forall>c\<in>set t. [c] \<in> fst ` set m"
  shows "\<exists>codes. encode_text m t = Inr codes \<and> length codes = length t \<and>
           set codes \<subseteq> snd ` set m"
proof -
  define g where "g c = projr (dict_get m [c])" for c
  have g: "dict_get m [c] = Inr (g c) \<and> g c \<in> snd ` set m" if "c \<in> set t" for c
    using dict_get_key [of "[c]" m] assms that by (force simp: g_def)
  then have "encode_text m t = Inr (map g t)"
    unfolding encode_text_def by (intro mapM_Inr) simp
  moreover have "set (map g t) \<subseteq> snd ` set m" using g by auto
  ultimately show ?thesis by auto
qed

lemma wrap_int32_id: "- 2147483648 \<le> c \<Longrightarrow> c < 2147483648 \<Longrightarrow> wrap_int32 c = c"
  by (simp add: wrap_int32_def)

lemma wrap_int32_zero: "wrap_int32 0 = 0"
  by (simp add: wrap_int32_def)

lemma mapM_as_int32:
  "\<forall>c\<in>set xs. - 9223372036854775808 \<le> c \<and> c < 9223372036854775808 \<Longrightarrow>
   mapM as_int32 xs = Inr (map wrap_int32 xs)"
  by (intro mapM_Inr) (simp add: as_int32_def)

lemma mapM_Inr_map:
  "mapM f xs = Inr ys \<Longrightarrow> (\<And>x y. x \<in> set xs \<Longrightarrow> f x = Inr y \<Longrightarrow> y = g x) \<Longrightarrow>
   ys = map g xs"
proof (induction xs arbitrary: ys)
  case Nil
  then show ?case by simp
next
  case (Cons x xs)
  from Cons.prems(1) obtain y ys' where y: "f x = Inr y" and ys': "mapM f xs = Inr ys'"
    and ys: "ys = y # ys'"
    by (auto split: sum.splits)
  have "y = g x" using Cons.prems(2) [of x y] y by simp
  moreover have "ys' = map g xs" using Cons.IH [OF ys'] Cons.prems(2) by simp
  ultimately show ?case using ys by simp
qed

lemma mapM_as_int32_D: "mapM as_int32 xs = Inr ys \<Longrightarrow> ys = map wrap_int32 xs"
  by (erule mapM_Inr_map) (auto simp: as_int32_def split: if_splits)

lemma pad_sequences_pos:
  assumes "0 < W" and "\<forall>c\<in>set s. - 9223372036854775808 \<le> c \<and> c < 9223372036854775808"
  shows "pad_sequences s W =
     Inr (replicate (W - length s) 0 @ map wrap_int32 (drop (length s - W) s))"
proof -
  have "\<forall>c\<in>set (drop (length s - W) s). - 9223372036854775808 \<le> c \<and> c < 9223372036854775808"
    using assms(2) by (meson in_set_dropD)
  from mapM_as_int32 [OF this] assms(1) show ?thesis
    by (auto simp: pad_sequences_def Let_def)
qed

lemma pad_sequences_zero:
  assumes "length s \<le> 1"
    and "\<forall>c\<in>set s. - 9223372036854775808 \<le> c \<and> c < 9223372036854775808"
  shows "pad_sequences s 0 = Inr []"
proof (cases s)
  case Nil
  then show ?thesis by (simp add: pad_sequences_def)
next
  case (Cons c cs)
  with assms(1) have s: "s = [c]" by simp
  from mapM_as_int32 [OF assms(2)] show ?thesis
    by (simp add: s pad_sequences_def)
qed

lemma one_hot_ok:
  "- int n \<le> y \<Longrightarrow> y < int n \<Longrightarrow> \<exists>row. one_hot n y = Inr row \<and> length row = n"
  by (simp add: one_hot_def)

lemma to_categorical_ok:
  assumes "0 < n" "\<forall>y\<in>set ys. - int n \<le> y \<and> y < int n"
  shows "\<exists>rows. to_categorical ys n = Inr rows \<and> length rows = length ys"
proof -
  define g where "g y = projr (one_hot n y)" for y
  have "one_hot n y = Inr (g y)" if "y \<in> set ys" for y
    using one_hot_ok [of n y] assms(2) that by (auto simp: g_def)
  then have "mapM (one_hot n) ys = Inr (map g ys)" by (intro mapM_Inr) simp
  with assms(1) show ?thesis by (simp add: to_categorical_def)
qed

lemma lookup_loop_char:
  "m \<noteq> [] \<Longrightarrow> \<exists>oc key. lookup_loop m y (out, ch) = (oc, Some key) \<and> key \<in> fst ` set m"
proof (induction m arbitrary: out ch)
  case Nil
  then show ?case by simp
next
  case (Cons p m)
  obtain c i where p: "p = (c, i)" by (cases p)
  show ?case
  proof (cases "i = y \<or> m = []")
    case True
    then show ?thesis by (auto simp: p)
  next
    case False
    with Cons.IH [of out "Some c"] show ?thesis by (auto simp: p)
  qed
qed

lemma generate_step_ok:
  assumes W: "0 < W" and m: "m \<noteq> []"
    and codes: "\<forall>v\<in>snd ` set m. - int (length m) \<le> v \<and> v < int (length m) \<and>
                  - 2147483648 \<le> v \<and> v < 2147483648"
    and chars_ok: "\<forall>c\<in>set t. [c] \<in> fst ` set m"
  shows "\<exists>w oc key. lookup_loop m (model w) ([], ch) = (oc, Some key) \<and>
           generate_step model m W (t, ch) = Inr (t @ key, Some key)"
proof -
  from encode_text_ok [OF chars_ok] obtain enc where
    enc: "encode_text m t = Inr enc" "set enc \<subseteq> snd ` set m" by blast
  let ?p = "replicate (W - length enc) 0 @ drop (length enc - W) enc"
  have fits: "\<forall>c\<in>set enc. - 2147483648 \<le> c \<and> c < 2147483648"
    using enc(2) codes by blast
  then have "\<forall>c\<in>set enc. - 9223372036854775808 \<le> c \<and> c < 9223372036854775808"
    by auto
  from pad_sequences_pos [OF W this]
  have "pad_sequences enc W =
      Inr (replicate (W - length enc) 0 @ map wrap_int32 (drop (length enc - W) enc))" .
  moreover have "map wrap_int32 (drop (length enc - W) enc) = drop (length enc - W) enc"
    using fits by (intro map_idI wrap_int32_id) (auto dest: in_set_dropD)
  ultimately have pad: "pad_sequences enc W = Inr ?p" by simp
  have n: "0 < length m" using m by simp
  have "\<forall>y\<in>set ?p. - int (length m) \<le> y \<and> y < int (length m)"
  proof
    fix y assume "y \<in> set ?p"
    then have "y = 0 \<or> y \<in> set enc" by (auto dest: in_set_dropD)
    then show "- int (length m) \<le> y \<and> y < int (length m)"
      using n enc(2) codes by auto
  qed
  from to_categorical_ok [OF n this] obtain rows where
    rows: "to_categorical ?p (length m) = Inr rows" by blast
  from lookup_loop_char [OF m, of "model rows" "[]" ch] obtain oc key where
    key: "lookup_loop m (model rows) ([], ch) = (oc, Some key)" by blast
  have "generate_step model m W (t, ch) = Inr (t @ key, Some key)"
    by (simp add: generate_step_def enc(1) pad rows key)
  with key show ?thesis by blast
qed

lemma generate_loop_keys:
  assumes W: "0 < W" and m: "m \<noteq> []"
    and codes: "\<forall>v\<in>snd ` set m. - int (length m) \<le> v \<and> v < int (length m) \<and>
                  - 2147483648 \<le> v \<and> v < 2147483648"
    and K: "\<forall>key\<in>K. \<forall>c\<in>set key. [c] \<in> fst ` set m"
    and pick: "\<forall>w oc key ch. lookup_loop m (model w) ([], ch) = (oc, Some key) \<longrightarrow> key \<in> K"
  shows "\<forall>c\<in>set t. [c] \<in> fst ` set m \<Longrightarrow>
     \<exists>ks ch'. length ks = n \<and> set ks \<subseteq> K \<and>
       generate_loop model m W n (t, ch) = Inr (t @ concat ks, ch')"
proof (induction n arbitrary: t ch)
  case 0
  show ?case by (rule exI [of _ "[]"]) simp
next
  case (Suc n)
  from generate_step_ok [OF W m codes Suc.prems, of model ch] obtain w oc key where
    key: "lookup_loop m (model w) ([], ch) = (oc, Some key)"
    and step: "generate_step model m W (t, ch) = Inr (t @ key, Some key)" by blast
  have kK: "key \<in> K" using pick key by blast
  then have "\<forall>c\<in>set (t @ key). [c] \<in> fst ` set m" using Suc.prems K by auto
  from Suc.IH [OF this, of "Some key"] obtain ks ch' where
    ks: "length ks = n" "set ks \<subseteq> K"
      "generate_loop model m W n (t @ key, Some key) = Inr ((t @ key) @ concat ks, ch')"
    by blast
  show ?case
    by (rule exI [of _ "key # ks"], rule exI [of _ ch']) (use ks kK step in simp)
qed

lemma concat_singletons:
  "\<forall>k\<in>set ks. length k = 1 \<Longrightarrow> length (concat ks) = length ks"
  by (induction ks) auto

lemma concat_const: "set ks \<subseteq> {k} \<Longrightarrow> concat ks = concat (replicate (length ks) k)"
  by (induction ks) auto


lemma generate_loop_snoc:
  "generate_loop model mapping W (Suc n) st =
     (case generate_loop model mapping W n st of
        Inl e \<Rightarrow> Inl e
      | Inr st' \<Rightarrow> generate_step model mapping W st')"
proof (induction n arbitrary: st)
  case 0
  show ?case by (simp split: sum.splits)
next
  case (Suc n)
  show ?case
  proof (cases "generate_step model mapping W st")
    case (Inl e)
    then show ?thesis by simp
  next
    case (Inr st1)
    have "generate_loop model mapping W (Suc (Suc n)) st =
          generate_loop model mapping W (Suc n) st1"
      using Inr by simp
    also have "\<dots> = (case generate_loop model mapping W n st1 of
        Inl e \<Rightarrow> Inl e | Inr st' \<Rightarrow> generate_step model mapping W st')"
      by (rule Suc.IH)
    also have "generate_loop model mapping W n st1 = generate_loop model mapping W (Suc n) st"
      using Inr by simp
    finally show ?thesis .
  qed
qed

lemma char_labels_closed_chars:
  assumes "distinct chars" "CHR ''~'' \<notin> set chars" "CHR ''^'' \<notin> set chars"
  shows "\<forall>key\<in>fst ` set (char_labels chars) - {''PAD''}.
           \<forall>c\<in>set key. [c] \<in> fst ` set (char_labels chars)"
proof -
  have "fst ` set (char_labels chars) = set (map fst (char_labels chars))" by simp
  also have "\<dots> = (\<lambda>c. [c]) ` set chars \<union> {''PAD'', ''~'', ''^''}"
    unfolding char_labels_keys [OF assms] by auto
  finally have keys: "fst ` set (char_labels chars) =
      (\<lambda>c. [c]) ` set chars \<union> {''PAD'', ''~'', ''^''}" .
  show ?thesis
  proof (intro ballI)
    fix key c
    assume k: "key \<in> fst ` set (char_labels chars) - {''PAD''}" and c: "c \<in> set key"
    then have "key \<in> (\<lambda>c. [c]) ` set chars \<or> key = ''~'' \<or> key = ''^''"
      unfolding keys by blast
    then have "[c] = key" using c by auto
    moreover have "key \<in> fst ` set (char_labels chars)" using k by simp
    ultimately show "[c] \<in> fst ` set (char_labels chars)" by simp
  qed
qed

lemma distinct_chars_length: "distinct (chars :: char list) \<Longrightarrow> length chars \<le> 256"
proof -
  assume "distinct chars"
  then have "length chars = card (set chars)" by (simp add: distinct_card)
  also have "\<dots> \<le> card (UNIV :: char set)" by (intro card_mono) simp_all
  finally show ?thesis by (simp add: card_UNIV_char)
qed

lemma char_labels_one_hot_range:
  assumes "distinct chars" "CHR ''~'' \<notin> set chars" "CHR ''^'' \<notin> set chars"
  shows "\<forall>v\<in>snd ` set (char_labels chars).
           - int (length (char_labels chars)) \<le> v \<and> v < int (length (char_labels chars)) \<and>
           - 2147483648 \<le> v \<and> v < 2147483648"
proof -
  have len: "length (char_labels chars) = length chars + 3"
    using arg_cong [OF char_labels_keys [OF assms], of length] by simp
  have "snd ` set (char_labels chars) = set (map snd (char_labels chars))" by simp
  also have "\<dots> = {0..<int (length chars) + 3}"
    unfolding char_labels_codes [OF assms] by (rule codes_range)
  finally show ?thesis using distinct_chars_length [OF assms(1)] by (auto simp: len)
qed

lemma char_labels_nonempty: "char_labels chars \<noteq> []"
proof -
  have "dict_set d k v \<noteq> []" for d :: "(string \<times> int) list" and k v
    by (cases d) (auto split: if_splits)
  then show ?thesis by (simp add: char_labels_def)
qed

lemma concat_replicate_singleton: "concat (replicate n [c]) = replicate n c"
  by (induction n) auto

lemma char_labels_closed_sentinel:
  assumes "distinct chars" "CHR ''~'' \<notin> set chars" "CHR ''^'' \<notin> set chars"
  shows "\<forall>key\<in>{''^''}. \<forall>c\<in>set key. [c] \<in> fst ` set (char_labels chars)"
proof -
  have "''^'' \<in> set (map fst (char_labels chars))"
    unfolding char_labels_keys [OF assms] by simp
  then show ?thesis by simp
qed

lemma char_labels_last:
  assumes "distinct chars" "CHR ''~'' \<notin> set chars" "CHR ''^'' \<notin> set chars"
  shows "fst (last (char_labels chars)) = ''^''"
  by (simp add: char_labels_eq [OF assms])

section \<open>Properties of the windowing loop\<close>

lemma window_loop_eq:
  assumes "\<forall>i\<in>set idxs. i + W < length seq \<longrightarrow>
             to_categorical (take W (drop i seq)) nc = Inr (g i)"
  shows "window_loop W nc seq idxs (ws, ls) =
     Inr (ws @ map g (filter (\<lambda>i. i + W < length seq) idxs),
          ls @ map (\<lambda>i. seq ! (i + W)) (filter (\<lambda>i. i + W < length seq) idxs))"
  using assms by (induction idxs arbitrary: ws ls) auto

lemma filter_window_range: "filter (\<lambda>i. i + W < n) [0..<m] = [0..<min m (n - W)]"
  by (induction m) auto

lemma labels_drop: "map (\<lambda>i. seq ! (i + W)) [0..<length seq - W] = drop W seq"
  by (rule nth_equalityI) (auto simp: add.commute)

lemma seq_windows_eq:
  assumes nc: "0 < nc" and codes: "\<forall>y\<in>set seq0. 0 \<le> y \<and> y < int nc" and two: "2 < nc"
  shows "\<exists>new. length new = length seq0 + 1 \<and> (\<forall>w\<in>set new. length w = W) \<and>
     (\<forall>i<length seq0 + 1.
        to_categorical (take W (drop i (replicate W 1 @ seq0 @ [2]))) nc = Inr (new ! i)) \<and>
     seq_windows W nc seq0 (ws, ls) = Inr (ws @ new, ls @ seq0 @ [2])"
proof -
  let ?seq = "replicate W 1 @ seq0 @ [2]"
  define g where "g i = projr (to_categorical (take W (drop i ?seq)) nc)" for i
  have inrange: "\<forall>y\<in>set ?seq. - int nc \<le> y \<and> y < int nc"
    using codes two by auto
  have g: "to_categorical (take W (drop i ?seq)) nc = Inr (g i) \<and>
           length (g i) = length (take W (drop i ?seq))" for i
  proof -
    have "\<forall>y\<in>set (take W (drop i ?seq)). - int nc \<le> y \<and> y < int nc"
      using inrange by (meson in_set_dropD in_set_takeD)
    from to_categorical_ok [OF nc this] show ?thesis by (auto simp: g_def)
  qed
  have len: "length ?seq - W = length seq0 + 1" by simp
  have flt: "filter (\<lambda>i. i + W < length ?seq) [0..<length ?seq] = [0..<length seq0 + 1]"
    unfolding filter_window_range by simp
  let ?new = "map g [0..<length seq0 + 1]"
  have lab: "map (\<lambda>i. ?seq ! (i + W)) [0..<length seq0 + 1] = seq0 @ [2]"
    using labels_drop [of ?seq W] by (simp only: len) simp
  have run: "seq_windows W nc seq0 (ws, ls) = Inr (ws @ ?new, ls @ seq0 @ [2])"
    unfolding seq_windows_def Let_def
    using window_loop_eq [of "[0..<length ?seq]" W ?seq nc g ws ls] g
    by (simp only: flt lab) simp
  have wid: "\<forall>w\<in>set ?new. length w = W"
  proof
    fix w assume "w \<in> set ?new"
    then have "w \<in> g ` set [0..<length seq0 + 1]" by (simp only: set_map)
    then obtain i where "i \<in> set [0..<length seq0 + 1]" and wi: "w = g i" by blast
    then have "i < length seq0 + 1" by (simp only: set_upt atLeastLessThan_iff)
    note i = this wi
    then have "length w = min W (length ?seq - i)" using g [of i] by simp
    with i(1) show "length w = W" by simp
  qed
  have nth: "\<forall>i<length seq0 + 1. to_categorical (take W (drop i ?seq)) nc = Inr (?new ! i)"
  proof (intro allI impI)
    fix i assume i: "i < length seq0 + 1"
    have "?new ! i = g i"
      using nth_map_upt [of i "length seq0 + 1" 0 g] i by (simp del: upt_Suc)
    with g [of i] show "to_categorical (take W (drop i ?seq)) nc = Inr (?new ! i)"
      by (simp only:)
  qed
  have l: "length ?new = length seq0 + 1" by (simp del: upt_Suc)
  show ?thesis
    by (intro exI [of _ ?new] conjI l wid nth run)
qed


section \<open>Properties of the batch padding\<close>

lemma cast_padded_rows:
  assumes "\<forall>u\<in>set rows. \<forall>c\<in>set u. - 9223372036854775808 \<le> c \<and> c < 9223372036854775808"
  shows "mapM (mapM as_int32) (map (\<lambda>u. u @ replicate (M - length u) 0) rows) =
     Inr (map (\<lambda>u. map wrap_int32 u @ replicate (M - length u) 0) rows)"
proof -
  have "mapM as_int32 (u @ replicate (M - length u) 0) =
        Inr (map wrap_int32 u @ replicate (M - length u) 0)" if "u \<in> set rows" for u
  proof -
    have "\<forall>c\<in>set (u @ replicate (M - length u) 0).
            - 9223372036854775808 \<le> c \<and> c < 9223372036854775808"
      using assms that by auto
    from mapM_as_int32 [OF this] show ?thesis by (simp add: wrap_int32_zero)
  qed
  then have "mapM (mapM as_int32) (map (\<lambda>u. u @ replicate (M - length u) 0) rows) =
     Inr (map (\<lambda>r. map wrap_int32 (fst r) @ replicate (M - length (fst r)) 0)
            (map (\<lambda>u. (u, u @ replicate (M - length u) 0)) rows))"
    by (induction rows) auto
  then show ?thesis by (simp add: comp_def)
qed

lemma padDataBatch_eq:
  assumes ne: "data \<noteq> []"
    and codes: "\<forall>u\<in>set data. \<forall>c\<in>set u.
        - 9223372036854775808 \<le> c \<and> c < 9223372036854775808 \<and>
        - 97 \<le> wrap_int32 c \<and> wrap_int32 c < 97"
    and labs: "\<forall>u\<in>set labels. length u \<le> Max (set (map length data)) \<and>
        (\<forall>c\<in>set u. - 9223372036854775808 \<le> c \<and> c < 9223372036854775808)"
  shows "padDataBatch data labels =
     Inr (map (\<lambda>u. map wrap_int32 u @ replicate (Max (set (map length data)) - length u) 0) data,
          map length data,
          map (\<lambda>u. map wrap_int32 u @ replicate (Max (set (map length data)) - length u) 0)
            labels)"
proof -
  let ?M = "Max (set (map length data))"
  let ?pad = "\<lambda>u. u @ replicate (?M - length u) (0::int)"
  let ?cast = "\<lambda>u. map wrap_int32 u @ replicate (?M - length u) (0::int)"
  have le: "length u \<le> ?M" if "u \<in> set data" for u
    using that by (intro Max_ge) auto
  have pd: "np_pad_after u (int ?M - int (length u)) = Inr (?pad u)" if "length u \<le> ?M" for u
    using that by (simp add: np_pad_after_def nat_diff_distrib')
  have x: "mapM (\<lambda>utter. np_pad_after utter (int ?M - int (length utter))) data =
        Inr (map ?pad data)"
    by (intro mapM_Inr pd le)
  have y: "mapM (\<lambda>utter. np_pad_after utter (int ?M - int (length utter))) labels =
        Inr (map ?pad labels)"
    by (intro mapM_Inr pd) (use labs in blast)
  have xc: "mapM (mapM as_int32) (map ?pad data) = Inr (map ?cast data)"
    by (rule cast_padded_rows) (use codes in blast)
  have yc: "mapM (mapM as_int32) (map ?pad labels) = Inr (map ?cast labels)"
    by (rule cast_padded_rows) (use labs in blast)
  have "\<forall>c\<in>set (concat (map ?cast data)). - int 97 \<le> c \<and> c < int 97"
    using codes by auto
  from to_categorical_ok [OF _ this] obtain rows where
    cat: "to_categorical (concat (map ?cast data)) 97 = Inr rows" by auto
  show ?thesis
    using ne by (simp add: padDataBatch_def Let_def x y xc yc cat del: set_map)
qed

lemma mapM_rows_D:
  "mapM (mapM as_int32) rows = Inr rows' \<Longrightarrow> rows' = map (map wrap_int32) rows"
  by (erule mapM_Inr_map) (rule mapM_as_int32_D)

lemma padDataBatch_Inr_D:
  assumes "padDataBatch data labels = Inr b"
  shows "data \<noteq> [] \<and>
     b = (map (\<lambda>u. map wrap_int32 u @ replicate (Max (set (map length data)) - length u) 0) data,
          map length data,
          map (\<lambda>u. map wrap_int32 u @ replicate (Max (set (map length data)) - length u) 0)
            labels)"
proof -
  let ?M = "Max (set (map length data))"
  let ?pad = "\<lambda>u. u @ replicate (?M - length u) (0::int)"
  let ?f = "\<lambda>utter. np_pad_after utter (int ?M - int (length utter))"
  have ne: "data \<noteq> []"
    using assms by (auto simp: padDataBatch_def Let_def split: if_splits)
  from assms ne obtain x_rows x_cast y_rows y_cast where
    x: "mapM ?f data = Inr x_rows" and xc: "mapM (mapM as_int32) x_rows = Inr x_cast"
    and y: "mapM ?f labels = Inr y_rows" and yc: "mapM (mapM as_int32) y_rows = Inr y_cast"
    and b: "b = (x_cast, map length data, y_cast)"
    by (auto simp: padDataBatch_def Let_def split: sum.splits simp del: set_map)
  have pd: "r = ?pad u" if "?f u = Inr r" for u r
    using that by (auto simp: np_pad_after_def nat_minus_as_int split: if_splits)
  have "x_rows = map ?pad data" by (rule mapM_Inr_map [OF x]) (rule pd)
  with mapM_rows_D [OF xc] have 1: "x_cast = map (map wrap_int32) (map ?pad data)" by simp
  have "y_rows = map ?pad labels" by (rule mapM_Inr_map [OF y]) (rule pd)
  with mapM_rows_D [OF yc] have 2: "y_cast = map (map wrap_int32) (map ?pad labels)" by simp
  show ?thesis using ne b 1 2 by (simp add: comp_def wrap_int32_zero)
qed

lemma batch_loop_each:
  "batch_loop run bs all_idxs inp out offs acc = Inr losses \<Longrightarrow>
   \<exists>rs. losses = acc @ rs \<and> length rs = length offs \<and>
     (\<forall>j<length offs. \<exists>d l b.
        np_index inp (take bs (drop (offs ! j) all_idxs)) = Inr d \<and>
        np_index out (take bs (drop (offs ! j) all_idxs)) = Inr l \<and>
        padDataBatch d l = Inr b \<and> rs ! j = run b)"
proof (induction offs arbitrary: acc)
  case Nil
  then show ?case by simp
next
  case (Cons i offs)
  let ?idxs = "take bs (drop i all_idxs)"
  from Cons.prems obtain d0 l0 b0 where
    d: "np_index inp ?idxs = Inr d0" and l: "np_index out ?idxs = Inr l0"
    and b: "padDataBatch d0 l0 = Inr b0"
    and rest: "batch_loop run bs all_idxs inp out offs (acc @ [run b0]) = Inr losses"
    by (auto simp: Let_def split: sum.splits)
  from Cons.IH [OF rest] obtain rs where
    rs: "losses = (acc @ [run b0]) @ rs" "length rs = length offs"
      "\<forall>j<length offs. \<exists>d l b.
        np_index inp (take bs (drop (offs ! j) all_idxs)) = Inr d \<and>
        np_index out (take bs (drop (offs ! j) all_idxs)) = Inr l \<and>
        padDataBatch d l = Inr b \<and> rs ! j = run b"
    by blast
  have "\<exists>d l b.
        np_index inp (take bs (drop ((i # offs) ! j) all_idxs)) = Inr d \<and>
        np_index out (take bs (drop ((i # offs) ! j) all_idxs)) = Inr l \<and>
        padDataBatch d l = Inr b \<and> (run b0 # rs) ! j = run b"
    if "j < length (i # offs)" for j
  proof (cases j)
    case 0
    then show ?thesis using d l b
      by (intro exI [of _ d0] exI [of _ l0] exI [of _ b0]) simp
  next
    case (Suc k)
    then show ?thesis using rs(3) that by simp
  qed
  then show ?case
    by (intro exI [of _ "run b0 # rs"]) (use rs(1,2) in simp)
qed


section \<open>Properties of the specification\<close>

text \<open>
  C1, as the code has it. \<^verbatim>\<open>generate_seq\<close> never tests the character it appends:
  the loop has no early exit, pass \<open>n + 1\<close> always runs on the state that the first
  \<open>n\<close> passes leave. With the stub model that always selects the class of the end
  sentinel (code 2), a vocabulary built from any corpus, a window width of at least 1
  and a seed text of vocabulary characters, the call returns the seed followed by
  \<^verbatim>\<open>n_chars\<close> end sentinels.
\<close>

theorem generate_seq_end_stub:
  assumes "list_of_set chars (corpus_text jokes)"
    and "0 < W"
    and "\<forall>c\<in>set seed_text. [c] \<in> fst ` set (char_labels chars)"
  shows "generate_seq (\<lambda>w. 2) (char_labels chars) W seed_text n_chars =
           Inr (seed_text @ replicate n_chars CHR ''^'') \<and>
         (\<forall>model mapping n st.
            generate_loop model mapping W (Suc n) st =
              (case generate_loop model mapping W n st of
                 Inl e \<Rightarrow> Inl e
               | Inr st' \<Rightarrow> generate_step model mapping W st'))"
proof -
  note ok = list_of_set_clean [OF assms(1)]
  have mem: "(''^'', 2) \<in> set (char_labels chars)"
    by (simp add: char_labels_set [OF ok])
  have pick: "\<forall>w oc key ch.
      lookup_loop (char_labels chars) ((\<lambda>w. 2) w) ([], ch) = (oc, Some key) \<longrightarrow> key \<in> {''^''}"
    by (simp add: lookup_loop_member [OF char_labels_distinct_codes [OF ok] mem])
  from generate_loop_keys [where n = n_chars and ch = None and model = "\<lambda>w. 2",
      OF assms(2) char_labels_nonempty char_labels_one_hot_range [OF ok]
        char_labels_closed_sentinel [OF ok] pick assms(3)]
  obtain ks ch' where ks: "length ks = n_chars" "set ks \<subseteq> {''^''}"
    "generate_loop (\<lambda>w. 2) (char_labels chars) W n_chars (seed_text, None) =
       Inr (seed_text @ concat ks, ch')"
    by blast
  have "concat ks = replicate n_chars CHR ''^''"
    using concat_const [OF ks(2)] ks(1) by (simp add: concat_replicate_singleton)
  then have "generate_seq (\<lambda>w. 2) (char_labels chars) W seed_text n_chars =
           Inr (seed_text @ replicate n_chars CHR ''^'')"
    by (simp add: generate_seq_def ks(3))
  moreover have "\<forall>model mapping n st.
            generate_loop model mapping W (Suc n) st =
              (case generate_loop model mapping W n st of
                 Inl e \<Rightarrow> Inl e
               | Inr st' \<Rightarrow> generate_step model mapping W st')"
    by (intro allI generate_loop_snoc)
  ultimately show ?thesis by (rule conjI)
qed

theorem generate_seq_end_stub_witness:
  "list_of_set ''a'' (corpus_text [''a^'']) \<and> (0::nat) < 2 \<and>
   generate_seq (\<lambda>w. 2) (char_labels ''a'') 2 ''a'' 3 = Inr ''a^^^''"
proof -
  have h: "list_of_set ''a'' (corpus_text [''a^''])"
    by (simp add: list_of_set_def corpus_text_def cleaned_jokes_def removeChars_def
        replace_empty_def)
  have s: "\<forall>c\<in>set ''a''. [c] \<in> fst ` set (char_labels ''a'')"
    by (simp add: char_labels_def char_labels_init_def)
  show ?thesis
    using h generate_seq_end_stub [OF h _ s, of 2 3, THEN conjunct1]
    by (simp add: numeral_3_eq_3)
qed

text \<open>
  Three passes with the end stub append three end sentinels, not one.
\<close>

theorem generate_seq_end_stub_counterexample:
  "generate_seq (\<lambda>w. 2) (char_labels ''a'') 2 ''a'' 3 = Inr ''a^^^'' \<and>
   generate_seq (\<lambda>w. 2) (char_labels ''a'') 2 ''a'' 3 \<noteq> Inr ''a^''"
proof -
  have "generate_seq (\<lambda>w. 2) (char_labels ''a'') 2 ''a'' 3 = Inr ''a^^^''"
    by code_simp
  then show ?thesis by simp
qed

text \<open>
  C2, as the code has it. The windowing loop prepends \<^verbatim>\<open>max_len\<close> start codes and
  appends one end code to the codes of the marked example, which already begin with
  the start code and end with the end code. For an example of \<open>L\<close> characters
  between the sentinels, a vocabulary built from a corpus that holds the example and
  any window width \<open>W\<close>, it emits one pair for each offset \<open>i\<close> with
  \<open>i + W < len(seq)\<close>: \<open>L + 3\<close> pairs, each window of width \<open>W\<close>, whose labels are
  the marked codes (the start code, the \<open>L\<close> characters, the end code) followed by
  the appended end code, so that the last label is the end sentinel.
\<close>

theorem example_windows:
  assumes "list_of_set chars (corpus_text jokes)" and "x \<in> set jokes"
  shows "\<exists>seq0 new.
     encode_text (char_labels chars) (mark (removeChars x)) = Inr seq0 \<and>
     length seq0 = length (removeChars x) + 2 \<and> hd seq0 = 1 \<and> last seq0 = 2 \<and>
     seq_windows W (length (char_labels chars)) seq0 (ws, ls) =
       Inr (ws @ new, ls @ seq0 @ [2]) \<and>
     length new = length (removeChars x) + 3 \<and>
     length (seq0 @ [2]) = length (removeChars x) + 3 \<and>
     last (ls @ seq0 @ [2]) = 2 \<and>
     (\<forall>w\<in>set new. length w = W) \<and>
     (\<forall>i<length (removeChars x) + 3.
        to_categorical (take W (drop i (replicate W 1 @ seq0 @ [2])))
          (length (char_labels chars)) = Inr (new ! i))"
proof -
  note ok = list_of_set_clean [OF assms(1)]
  let ?m = "char_labels chars"
  let ?t = "mark (removeChars x)"
  have len: "length ?m = length chars + 3"
    using arg_cong [OF char_labels_keys [OF ok], of length] by simp
  have keys: "set (map fst ?m) = (\<lambda>c. [c]) ` set chars \<union> {''PAD'', ''~'', ''^''}"
    unfolding char_labels_keys [OF ok] by auto
  have "set (removeChars x) \<subseteq> set chars"
    using corpus_text_joke [OF assms(2)] assms(1) by (simp add: list_of_set_def)
  then have "\<forall>c\<in>set ?t. [c] \<in> set (map fst ?m)"
    unfolding keys by (auto simp: mark_def)
  then have "\<forall>c\<in>set ?t. [c] \<in> fst ` set ?m" by simp
  from encode_text_ok [OF this] obtain seq0 where
    enc: "encode_text ?m ?t = Inr seq0" and l0: "length seq0 = length ?t"
    and sub: "set seq0 \<subseteq> snd ` set ?m" by blast
  have l1: "length seq0 = length (removeChars x) + 2" using l0 by (simp add: mark_def)
  have nth: "\<forall>i<length ?t. dict_get ?m [?t ! i] = Inr (seq0 ! i)"
    using mapM_Inr_D [OF enc [unfolded encode_text_def]] by simp
  have dk: "distinct (map fst ?m)" by (rule char_labels_distinct_keys [OF ok])
  have s1: "dict_get ?m ''~'' = Inr 1" and s2: "dict_get ?m ''^'' = Inr 2"
    by (rule dict_get_member [OF dk], simp add: char_labels_set [OF ok])+
  have "?t ! 0 = CHR ''~''" by (simp add: mark_def)
  with nth [rule_format, of 0] s1 have "seq0 ! 0 = 1" by (simp add: mark_def)
  moreover have ne: "seq0 \<noteq> []" using l1 by auto
  ultimately have h: "hd seq0 = 1" by (simp add: hd_conv_nth)
  have "?t ! (length ?t - 1) = CHR ''^''"
    by (simp add: mark_def nth_append nth_Cons')
  with nth [rule_format, of "length ?t - 1"] s2 have "seq0 ! (length seq0 - 1) = 2"
    by (simp add: l0 mark_def)
  then have la: "last seq0 = 2" using ne by (simp add: last_conv_nth)
  have "snd ` set ?m = set (map snd ?m)" by simp
  also have "\<dots> = {0..<int (length chars) + 3}"
    unfolding char_labels_codes [OF ok] by (rule codes_range)
  finally have codes: "\<forall>y\<in>set seq0. 0 \<le> y \<and> y < int (length ?m)"
    using sub by (auto simp: len)
  have nc: "0 < length ?m" "2 < length ?m" by (simp_all add: len)
  from seq_windows_eq [OF nc(1) codes nc(2), of W ws ls] obtain new where
    new: "length new = length seq0 + 1" "\<forall>w\<in>set new. length w = W"
      "\<forall>i<length seq0 + 1.
        to_categorical (take W (drop i (replicate W 1 @ seq0 @ [2]))) (length ?m) = Inr (new ! i)"
      "seq_windows W (length ?m) seq0 (ws, ls) = Inr (ws @ new, ls @ seq0 @ [2])"
    by blast
  have a: "length new = length (removeChars x) + 3" using new(1) l1 by simp
  have b: "length (seq0 @ [2]) = length (removeChars x) + 3" using l1 by simp
  have c: "last (ls @ seq0 @ [2]) = 2" by simp
  have d: "\<forall>i<length (removeChars x) + 3.
        to_categorical (take W (drop i (replicate W 1 @ seq0 @ [2]))) (length ?m) = Inr (new ! i)"
    using new(3) l1 by simp
  show ?thesis
    by (intro exI [of _ seq0] exI [of _ new] conjI enc l1 h la new(4) a b c new(2) d)
qed

theorem example_windows_witness:
  "list_of_set ''hi'' (corpus_text [''hi'']) \<and> ''hi'' \<in> set [''hi''] \<and>
   encode_text (char_labels ''hi'') (mark (removeChars ''hi'')) = Inr [1, 3, 4, 2] \<and>
   map_sum id snd (seq_windows 3 (length (char_labels ''hi'')) [1, 3, 4, 2] ([], [])) =
     Inr [1, 3, 4, 2, 2]"
proof -
  have h: "list_of_set ''hi'' (corpus_text [''hi''])"
    by (simp add: list_of_set_def corpus_text_def cleaned_jokes_def removeChars_def
        replace_empty_def)
  have e: "encode_text (char_labels ''hi'') (mark (removeChars ''hi'')) = Inr [1, 3, 4, 2]"
    by (simp add: encode_text_def char_labels_def char_labels_init_def mark_def
        removeChars_def replace_empty_def)
  from example_windows [OF h, of "''hi''" 3 "[]" "[]"] e
  have "\<exists>new. seq_windows 3 (length (char_labels ''hi'')) [1, 3, 4, 2] ([], []) =
      Inr ([] @ new, [] @ [1, 3, 4, 2] @ [2])"
    by auto
  then show ?thesis using h e by auto
qed

text \<open>
  The example \<^verbatim>\<open>"hi"\<close> with the width 3 gives five pairs, with the labels
  \<open>~ h i ^ ^\<close>, where \<open>L + 1\<close> is three.
\<close>

theorem example_windows_counterexample:
  "map_sum id (\<lambda>(input_sequences, labels). (length input_sequences, labels))
     (training_windows (char_labels ''hi'') 3 (marked_jokes [''hi''])) =
     Inr (5, [1, 3, 4, 2, 2]) \<and>
   (5::nat) \<noteq> length ''hi'' + 1"
proof -
  have x: "x_data (char_labels ''hi'') (marked_jokes [''hi'']) = Inr [[1, 3, 4, 2]]"
    by (simp add: x_data_def encode_text_def char_labels_def char_labels_init_def
        marked_jokes_def cleaned_jokes_def mark_def removeChars_def replace_empty_def)
  have t: "take 100000 [[1, 3, 4, 2 :: int]] = [[1, 3, 4, 2]]" by simp
  have n: "length (char_labels ''hi'') = 5"
    by (simp add: char_labels_def char_labels_init_def)
  have "map_sum id (\<lambda>(input_sequences, labels). (length input_sequences, labels))
     (seq_loop 3 5 [[1, 3, 4, 2]] ([], [])) = Inr (5, [1, 3, 4, 2, 2])"
    by code_simp
  then show ?thesis by (simp add: training_windows_def x t n)
qed

text \<open>
  C3, as the code has it. For a vocabulary built from any corpus, \<^verbatim>\<open>labels_char[k]\<close>
  raises \<^verbatim>\<open>KeyError\<close> for every \<open>k\<close> outside \<open>[0, size)\<close>. \<^verbatim>\<open>generate_seq\<close> does
  not read that table: when the model's class is outside the range, the reverse lookup
  loop finds no key and leaves \<^verbatim>\<open>out_char\<close> empty, and nothing is raised. For a
  window width of at least 1, a seed text of vocabulary characters and a model that
  never selects class 0, whether its classes are in the range or not, the call returns
  a string that starts with the seed.
\<close>

theorem out_of_range_code_not_fatal:
  assumes "list_of_set chars (corpus_text jokes)"
    and "0 < W"
    and "\<forall>c\<in>set seed_text. [c] \<in> fst ` set (char_labels chars)"
    and "\<forall>w. model w \<noteq> 0"
  shows "(\<forall>k. k < 0 \<or> int (length (char_labels chars)) \<le> k \<longrightarrow>
            dict_get (labels_char chars) k = Inl KeyError) \<and>
         (\<forall>w ch. model w < 0 \<or> int (length (char_labels chars)) \<le> model w \<longrightarrow>
            fst (lookup_loop (char_labels chars) (model w) ([], ch)) = []) \<and>
         (\<exists>s. generate_seq model (char_labels chars) W seed_text n_chars = Inr (seed_text @ s))"
proof -
  note ok = list_of_set_clean [OF assms(1)]
  let ?m = "char_labels chars"
  have len: "length ?m = length chars + 3"
    using arg_cong [OF char_labels_keys [OF ok], of length] by simp
  have dec: "dict_get (labels_char chars) k = Inl KeyError"
    if "k < 0 \<or> int (length ?m) \<le> k" for k
  proof -
    have "set (map fst (labels_char chars)) = {0..<int (length chars) + 3}"
      unfolding labels_char_keys by (rule codes_range)
    with that have "k \<notin> fst ` set (labels_char chars)" by (auto simp: len)
    then show ?thesis by (rule dict_get_missing)
  qed
  have "snd ` set ?m = set (map snd ?m)" by simp
  also have "\<dots> = {0..<int (length chars) + 3}"
    unfolding char_labels_codes [OF ok] by (rule codes_range)
  finally have codes: "snd ` set ?m = {0..<int (length chars) + 3}" .
  have look: "lookup_loop ?m k ([], ch) = ([], Some ''^'')"
    if "k < 0 \<or> int (length ?m) \<le> k" for k ch
  proof -
    from that have "k \<notin> snd ` set ?m" unfolding codes by (auto simp: len)
    from lookup_loop_missing [OF this char_labels_nonempty] show ?thesis
      by (simp add: char_labels_last [OF ok])
  qed
  have hat: "''^'' \<in> fst ` set ?m - {''PAD''}"
  proof -
    have "''^'' \<in> set (map fst ?m)" unfolding char_labels_keys [OF ok] by simp
    then show ?thesis by simp
  qed
  have "key \<in> fst ` set ?m - {''PAD''}"
    if key: "lookup_loop ?m (model w) ([], ch) = (oc, Some key)" for w oc key ch
  proof (cases "model w \<in> snd ` set ?m")
    case True
    from lookup_loop_found [OF True, of "[]" ch] key
    have mem: "(key, model w) \<in> set ?m" by auto
    have dk: "distinct (map fst ?m)" by (rule char_labels_distinct_keys [OF ok])
    have "(''PAD'', 0) \<in> set ?m" by (simp add: char_labels_set [OF ok])
    from dict_get_member [OF dk this] dict_get_member [OF dk mem]
    have "key \<noteq> ''PAD''" using assms(4) [rule_format, of w] by auto
    moreover from mem have "key \<in> fst ` set ?m" by (rule image_eqI [rotated]) simp
    ultimately show ?thesis by simp
  next
    case False
    then have "model w < 0 \<or> int (length ?m) \<le> model w"
      unfolding codes by (auto simp: len)
    from look [OF this, of ch] key hat show ?thesis by simp
  qed
  then have pick: "\<forall>w oc key ch.
      lookup_loop ?m (model w) ([], ch) = (oc, Some key) \<longrightarrow> key \<in> fst ` set ?m - {''PAD''}"
    by blast
  from generate_loop_keys [where n = n_chars and ch = None and model = model,
      OF assms(2) char_labels_nonempty char_labels_one_hot_range [OF ok]
        char_labels_closed_chars [OF ok] pick assms(3)]
  obtain ks ch' where
    "generate_loop model ?m W n_chars (seed_text, None) = Inr (seed_text @ concat ks, ch')"
    by blast
  then have "\<exists>s. generate_seq model ?m W seed_text n_chars = Inr (seed_text @ s)"
    by (simp add: generate_seq_def)
  with dec look show ?thesis by simp
qed

theorem out_of_range_code_not_fatal_witness:
  "list_of_set ''a'' (corpus_text [''a^'']) \<and> (0::nat) < 2 \<and>
   dict_get (labels_char ''a'') 99 = Inl KeyError \<and>
   (\<exists>s. generate_seq (\<lambda>w. 99) (char_labels ''a'') 2 ''a'' 2 = Inr (''a'' @ s))"
proof -
  have h: "list_of_set ''a'' (corpus_text [''a^''])"
    by (simp add: list_of_set_def corpus_text_def cleaned_jokes_def removeChars_def
        replace_empty_def)
  have s: "\<forall>c\<in>set ''a''. [c] \<in> fst ` set (char_labels ''a'')"
    by (simp add: char_labels_def char_labels_init_def)
  have m: "\<forall>w::int list list. (99::int) \<noteq> 0" by simp
  note r = out_of_range_code_not_fatal [OF h _ s m, of 2 2]
  have "dict_get (labels_char ''a'') 99 = Inl KeyError"
    using r [simplified, THEN conjunct1] by (simp add: char_labels_def char_labels_init_def)
  then show ?thesis
    using h r by simp
qed

text \<open>
  A model that selects class 99 with a vocabulary of four entries: the call returns,
  and the returned string is one character longer than the seed.
\<close>

theorem out_of_range_code_counterexample:
  "\<not> (0 \<le> (99::int) \<and> 99 < int (length (char_labels ''a''))) \<and>
   generate_seq (\<lambda>w. 99) (char_labels ''a'') 2 ''a'' 1 = Inr ''a^''"
proof -
  have "generate_seq (\<lambda>w. 99) (char_labels ''a'') 2 ''a'' 1 = Inr ''a^''"
    by code_simp
  then show ?thesis by (simp add: char_labels_def char_labels_init_def)
qed

text \<open>
  C4. For every corpus, with \<open>chars\<close> the distinct characters of the cleaned and joined
  text in any order, the vocabulary has \<open>3 + |set text|\<close> entries, its codes are
  exactly the integers from 0 below that size, each code and each key occurs once,
  \<^verbatim>\<open>'PAD'\<close>, \<^verbatim>\<open>'~'\<close> and \<^verbatim>\<open>'^'\<close> have the codes 0, 1 and 2, and every character
  of the text has a code from 3 up.
\<close>

theorem vocabulary_size_and_codes:
  assumes "list_of_set chars (corpus_text jokes)"
  shows "length (char_labels chars) = 3 + card (set (corpus_text jokes)) \<and>
     set (map snd (char_labels chars)) = {0..<int (length (char_labels chars))} \<and>
     distinct (map snd (char_labels chars)) \<and>
     distinct (map fst (char_labels chars)) \<and>
     dict_get (char_labels chars) ''PAD'' = Inr 0 \<and>
     dict_get (char_labels chars) ''~'' = Inr 1 \<and>
     dict_get (char_labels chars) ''^'' = Inr 2 \<and>
     (\<forall>c\<in>set (corpus_text jokes).
        \<exists>k. dict_get (char_labels chars) [c] = Inr k \<and> 3 \<le> k \<and>
            k < int (length (char_labels chars)))"
proof -
  note ok = list_of_set_clean [OF assms]
  have len: "length (char_labels chars) = length chars + 3"
    using arg_cong [OF char_labels_keys [OF ok], of length] by simp
  have card: "card (set (corpus_text jokes)) = length chars"
    using assms distinct_card [of chars] by (simp add: list_of_set_def)
  have dk: "distinct (map fst (char_labels chars))"
    by (rule char_labels_distinct_keys [OF ok])
  have sent: "dict_get (char_labels chars) ''PAD'' = Inr 0"
    "dict_get (char_labels chars) ''~'' = Inr 1"
    "dict_get (char_labels chars) ''^'' = Inr 2"
    by (rule dict_get_member [OF dk], simp add: char_labels_set [OF ok])+
  have corpus: "\<exists>k. dict_get (char_labels chars) [c] = Inr k \<and> 3 \<le> k \<and>
            k < int (length (char_labels chars))"
    if "c \<in> set (corpus_text jokes)" for c
  proof -
    from that assms have "c \<in> set chars" by (simp add: list_of_set_def)
    then obtain j where j: "j < length chars" "chars ! j = c"
      by (auto simp: in_set_conv_nth)
    then have "([c], int j + 3) \<in> set (char_labels chars)"
      by (auto simp: char_labels_set [OF ok])
    from dict_get_member [OF dk this] j show ?thesis by (simp add: len)
  qed
  have rng: "set (map snd (char_labels chars)) = {0..<int (length (char_labels chars))}"
    unfolding char_labels_codes [OF ok] len using codes_range [of "length chars"] by simp
  show ?thesis
    using len card rng char_labels_distinct_codes [OF ok] dk sent corpus by simp
qed

theorem vocabulary_size_and_codes_witness:
  "list_of_set [CHR ''b'', CHR 0x0A, CHR ''a''] (corpus_text [''a~b'', ''^ab'']) \<and>
   length (char_labels [CHR ''b'', CHR 0x0A, CHR ''a'']) = 6 \<and>
   card (set (corpus_text [''a~b'', ''^ab''])) = 3 \<and>
   set (map snd (char_labels [CHR ''b'', CHR 0x0A, CHR ''a''])) = {0..<6}"
proof -
  have h: "list_of_set [CHR ''b'', CHR 0x0A, CHR ''a''] (corpus_text [''a~b'', ''^ab''])"
    by (auto simp: list_of_set_def corpus_text_def cleaned_jokes_def removeChars_def
        replace_empty_def)
  have l: "length (char_labels [CHR ''b'', CHR 0x0A, CHR ''a'']) = 6"
    by (simp add: char_labels_def char_labels_init_def)
  show ?thesis
    using h l vocabulary_size_and_codes [OF h] by simp
qed

text \<open>
  C5, as the code has it. For every sequence of codes that fit in 32 bits and every
  window width of at least 1 (and for the width 0 when the sequence has at most one
  code), the \<^verbatim>\<open>pad_sequences\<close> call of \<^verbatim>\<open>generate_seq\<close> returns a window of exactly
  that width: the last \<open>W\<close> codes of a longer sequence, and a shorter sequence after
  as many codes 0 as it takes.
\<close>

theorem pad_sequences_window:
  assumes "0 < W \<or> length s \<le> 1"
    and "\<forall>c\<in>set s. - 2147483648 \<le> c \<and> c < 2147483648"
  shows "\<exists>w. pad_sequences s W = Inr w \<and> length w = W \<and>
      (W < length s \<longrightarrow> w = drop (length s - W) s) \<and>
      (length s \<le> W \<longrightarrow> w = replicate (W - length s) 0 @ s)"
proof -
  have wide: "\<forall>c\<in>set s. - 9223372036854775808 \<le> c \<and> c < 9223372036854775808"
    using assms(2) by auto
  have same: "map wrap_int32 (drop (length s - W) s) = drop (length s - W) s"
    using assms(2) by (intro map_idI wrap_int32_id) (auto dest: in_set_dropD)
  show ?thesis
  proof (cases "0 < W")
    case True
    from pad_sequences_pos [OF True wide] same
    have "pad_sequences s W = Inr (replicate (W - length s) 0 @ drop (length s - W) s)"
      by simp
    then show ?thesis by auto
  next
    case False
    then have W: "W = 0" and short: "length s \<le> 1" using assms(1) by auto
    from pad_sequences_zero [OF short wide] show ?thesis using short by (simp add: W)
  qed
qed

theorem pad_sequences_window_witness:
  "(0::nat) < 3 \<and>
   encode_text (char_labels ''helo'') ''hello'' = Inr [3, 4, 5, 5, 6] \<and>
   pad_sequences [3, 4, 5, 5, 6] 3 = Inr [5, 5, 6] \<and>
   encode_text (char_labels ''hi'') ''hi'' = Inr [3, 4] \<and>
   pad_sequences [3, 4] 5 = Inr [0, 0, 0, 3, 4] \<and>
   pad_sequences [3] 0 = Inr []"
proof -
  have a: "encode_text (char_labels ''helo'') ''hello'' = Inr [3, 4, 5, 5, 6]"
    and b: "encode_text (char_labels ''hi'') ''hi'' = Inr [3, 4]"
    by (simp_all add: encode_text_def char_labels_def char_labels_init_def)
  have c: "pad_sequences [3, 4, 5, 5, 6] 3 = Inr [5, 5, 6]"
    using pad_sequences_window [of 3 "[3, 4, 5, 5, 6]"] by (auto simp: numeral_3_eq_3)
  have d: "pad_sequences [3, 4] 5 = Inr [0, 0, 0, 3, 4]"
    using pad_sequences_window [of 5 "[3, 4]"] by (auto simp: eval_nat_numeral)
  have e: "pad_sequences [3] 0 = Inr []"
    using pad_sequences_window [of 0 "[3]"] by auto
  show ?thesis using a b c d e by simp
qed

text \<open>
  With the width 0 a sequence of two codes is rejected, and a code that does not fit in
  32 bits is not kept: 4294967298 is stored as 2.
\<close>

theorem pad_sequences_window_counterexample:
  "pad_sequences [3, 4] 0 = Inl ValueError \<and>
   pad_sequences [4294967298] 1 = Inr [2]"
  by (simp add: pad_sequences_def as_int32_def wrap_int32_def)

text \<open>
  C6. Cleaning a raw example and then marking it gives a string that begins with the
  start sentinel and ends with the end sentinel, holds each sentinel exactly once, and
  holds neither a backspace nor the control character \<^verbatim>\<open>\x10\<close>.
\<close>

theorem clean_mark_sentinels:
  "hd (mark (removeChars x)) = CHR ''~'' \<and>
   last (mark (removeChars x)) = CHR ''^'' \<and>
   count_list (mark (removeChars x)) CHR ''~'' = 1 \<and>
   count_list (mark (removeChars x)) CHR ''^'' = 1 \<and>
   CHR 0x08 \<notin> set (mark (removeChars x)) \<and>
   CHR 0x10 \<notin> set (mark (removeChars x)) \<and>
   mark (removeChars x) = ''~'' @ removeChars x @ ''^'' \<and>
   set (removeChars x) \<inter> {CHR 0x08, CHR 0x10, CHR ''~'', CHR ''^''} = {}"
proof -
  have a: "CHR ''~'' \<notin> set (removeChars x)" and b: "CHR ''^'' \<notin> set (removeChars x)"
    and c: "CHR 0x08 \<notin> set (removeChars x)" and d: "CHR 0x10 \<notin> set (removeChars x)"
    by (simp_all add: set_removeChars)
  have "count_list (removeChars x) CHR ''~'' = 0" "count_list (removeChars x) CHR ''^'' = 0"
    using a b by (simp_all add: count_list_0_iff)
  then show ?thesis
    using a b c d by (simp add: mark_def count_list_append)
qed

theorem clean_mark_sentinels_witness:
  "mark (removeChars (''a~b^'' @ [CHR 0x08, CHR ''c'', CHR 0x10])) = ''~abc^'' \<and>
   count_list (mark (removeChars (''a~b^'' @ [CHR 0x08, CHR ''c'', CHR 0x10]))) CHR ''~'' = 1"
  using clean_mark_sentinels [of "''a~b^'' @ [CHR 0x08, CHR ''c'', CHR 0x10]"]
  by (simp add: mark_def removeChars_def replace_empty_def)

text \<open>
  C7. The keys of the vocabulary are the characters of the corpus text and the three
  sentinel keys; for every key, looking up in \<^verbatim>\<open>labels_char\<close> the code that
  \<^verbatim>\<open>char_labels\<close> gives it returns the key, and so does the reverse lookup loop of
  \<^verbatim>\<open>generate_seq\<close>.
\<close>

theorem decode_encode_roundtrip:
  assumes "list_of_set chars (corpus_text jokes)"
  shows "fst ` set (char_labels chars) =
       (\<lambda>c. [c]) ` set (corpus_text jokes) \<union> {''PAD'', ''~'', ''^''} \<and>
     (\<forall>key\<in>fst ` set (char_labels chars).
        \<exists>k. dict_get (char_labels chars) key = Inr k \<and>
            dict_get (labels_char chars) k = Inr key \<and>
            lookup_loop (char_labels chars) k ([], None) = (key, Some key))"
proof -
  note ok = list_of_set_clean [OF assms]
  have keys: "fst ` set (char_labels chars) =
       (\<lambda>c. [c]) ` set (corpus_text jokes) \<union> {''PAD'', ''~'', ''^''}"
  proof -
    have "fst ` set (char_labels chars) = set (map fst (char_labels chars))" by simp
    also have "\<dots> = (\<lambda>c. [c]) ` set chars \<union> {''PAD'', ''~'', ''^''}"
      unfolding char_labels_keys [OF ok] by auto
    finally show ?thesis using assms by (simp add: list_of_set_def)
  qed
  have rt: "\<exists>k. dict_get (char_labels chars) key = Inr k \<and>
            dict_get (labels_char chars) k = Inr key \<and>
            lookup_loop (char_labels chars) k ([], None) = (key, Some key)"
    if "key \<in> fst ` set (char_labels chars)" for key
  proof -
    from that obtain k where mem: "(key, k) \<in> set (char_labels chars)" by auto
    then have "(k, key) \<in> set (labels_char chars)"
      unfolding char_labels_set [OF ok] labels_char_set by auto
    then have "dict_get (labels_char chars) k = Inr key"
      by (rule dict_get_member [OF labels_char_distinct_keys])
    moreover have "dict_get (char_labels chars) key = Inr k"
      by (rule dict_get_member [OF char_labels_distinct_keys [OF ok] mem])
    moreover have "lookup_loop (char_labels chars) k ([], None) = (key, Some key)"
      by (rule lookup_loop_member [OF char_labels_distinct_codes [OF ok] mem])
    ultimately show ?thesis by blast
  qed
  show ?thesis by (intro conjI ballI keys rt)
qed

theorem decode_encode_roundtrip_witness:
  "list_of_set [CHR ''b'', CHR 0x0A, CHR ''a''] (corpus_text [''a~b'', ''^ab'']) \<and>
   ''a'' \<in> fst ` set (char_labels [CHR ''b'', CHR 0x0A, CHR ''a'']) \<and>
   dict_get (char_labels [CHR ''b'', CHR 0x0A, CHR ''a'']) ''a'' = Inr 5 \<and>
   dict_get (labels_char [CHR ''b'', CHR 0x0A, CHR ''a'']) 5 = Inr ''a'' \<and>
   dict_get (labels_char [CHR ''b'', CHR 0x0A, CHR ''a''])
     (projr (dict_get (char_labels [CHR ''b'', CHR 0x0A, CHR ''a'']) ''^'')) = Inr ''^''"
proof -
  have h: "list_of_set [CHR ''b'', CHR 0x0A, CHR ''a''] (corpus_text [''a~b'', ''^ab''])"
    by (auto simp: list_of_set_def corpus_text_def cleaned_jokes_def removeChars_def
        replace_empty_def)
  have m: "''a'' \<in> fst ` set (char_labels [CHR ''b'', CHR 0x0A, CHR ''a''])"
    by (simp add: char_labels_def char_labels_init_def)
  note r = decode_encode_roundtrip [OF h, THEN conjunct2, THEN bspec, OF m]
  have e: "dict_get (char_labels [CHR ''b'', CHR 0x0A, CHR ''a'']) ''a'' = Inr 5"
    by (simp add: char_labels_def char_labels_init_def)
  have d: "dict_get (labels_char [CHR ''b'', CHR 0x0A, CHR ''a'']) 5 = Inr ''a''"
    using r e by simp
  have s: "dict_get (char_labels [CHR ''b'', CHR 0x0A, CHR ''a'']) ''^'' = Inr 2"
    by (simp add: char_labels_def char_labels_init_def)
  have t: "dict_get (labels_char [CHR ''b'', CHR 0x0A, CHR ''a'']) 2 = Inr ''^''"
    by (simp add: labels_char_def labels_char_init_def)
  show ?thesis
    using h m e d s t by simp
qed

text \<open>
  C8, as the code has it. For a batch that is not empty, whose entries are in the 64-bit
  range, whose input codes as stored are indices that
  \<^verbatim>\<open>to_categorical(x_data, num_classes=97)\<close> accepts and whose label sequences are no
  longer than its longest input, \<^verbatim>\<open>padDataBatch\<close> returns the inputs and the labels,
  each entry stored as a 32-bit integer (unchanged when it fits in 32 bits) and each
  row padded with the code 0 at the trailing end up to the maximum length among the
  inputs of this batch, together with the true lengths of the inputs. It reads nothing
  but its two arguments: in an epoch of \<^verbatim>\<open>train\<close>, what the session is fed for the
  \<open>j\<close>-th batch is \<^verbatim>\<open>padDataBatch\<close> of the \<open>j\<close>-th slice of the index array, that is
  the rows of that slice alone, stored and padded to the longest input among them.
\<close>

theorem padDataBatch_pads_batch:
  assumes "data \<noteq> []"
    and "\<forall>u\<in>set data. \<forall>c\<in>set u.
        - 9223372036854775808 \<le> c \<and> c < 9223372036854775808 \<and>
        - 97 \<le> wrap_int32 c \<and> wrap_int32 c < 97"
    and "\<forall>u\<in>set labels. length u \<le> Max (set (map length data)) \<and>
        (\<forall>c\<in>set u. - 9223372036854775808 \<le> c \<and> c < 9223372036854775808)"
  shows "\<exists>x y. padDataBatch data labels = Inr (x, map length data, y) \<and>
     length x = length data \<and> length y = length labels \<and>
     (\<forall>i<length data.
        x ! i = map wrap_int32 (data ! i) @
          replicate (Max (set (map length data)) - length (data ! i)) 0 \<and>
        length (x ! i) = Max (set (map length data))) \<and>
     (\<forall>i<length labels.
        y ! i = map wrap_int32 (labels ! i) @
          replicate (Max (set (map length data)) - length (labels ! i)) 0 \<and>
        length (y ! i) = Max (set (map length data))) \<and>
     (\<forall>c. - 2147483648 \<le> c \<and> c < 2147483648 \<longrightarrow> wrap_int32 c = c) \<and>
     (\<forall>run all_idxs input_seq output_seq losses j.
        train_epoch run all_idxs input_seq output_seq = Inr losses \<and> j < length losses \<longrightarrow>
        (\<exists>d l b.
           np_index input_seq (take 128 (drop (j * 128) all_idxs)) = Inr d \<and>
           np_index output_seq (take 128 (drop (j * 128) all_idxs)) = Inr l \<and>
           padDataBatch d l = Inr b \<and> losses ! j = run b \<and>
           b = (map (\<lambda>u. map wrap_int32 u @
                        replicate (Max (set (map length d)) - length u) 0) d,
                map length d,
                map (\<lambda>u. map wrap_int32 u @
                        replicate (Max (set (map length d)) - length u) 0) l)))"
proof -
  let ?M = "Max (set (map length data))"
  let ?pad = "\<lambda>u. map wrap_int32 u @ replicate (?M - length u) (0::int)"
  have run: "padDataBatch data labels = Inr (map ?pad data, map length data, map ?pad labels)"
    by (rule padDataBatch_eq [OF assms])
  have le: "length (data ! i) \<le> ?M" if "i < length data" for i
    using that by (intro Max_ge) auto
  have x: "\<forall>i<length data.
        map ?pad data ! i = map wrap_int32 (data ! i) @ replicate (?M - length (data ! i)) 0 \<and>
        length (map ?pad data ! i) = ?M"
    using le by simp
  have y: "\<forall>i<length labels.
        map ?pad labels ! i =
          map wrap_int32 (labels ! i) @ replicate (?M - length (labels ! i)) 0 \<and>
        length (map ?pad labels ! i) = ?M"
    using assms(3) by simp
  have w: "\<forall>c. - 2147483648 \<le> c \<and> c < 2147483648 \<longrightarrow> wrap_int32 c = c"
    by (simp add: wrap_int32_id)
  have ep: "\<exists>d l b.
           np_index input_seq (take 128 (drop (j * 128) all_idxs)) = Inr d \<and>
           np_index output_seq (take 128 (drop (j * 128) all_idxs)) = Inr l \<and>
           padDataBatch d l = Inr b \<and> losses ! j = run b \<and>
           b = (map (\<lambda>u. map wrap_int32 u @
                        replicate (Max (set (map length d)) - length u) 0) d,
                map length d,
                map (\<lambda>u. map wrap_int32 u @
                        replicate (Max (set (map length d)) - length u) 0) l)"
    if "train_epoch run all_idxs input_seq output_seq = Inr losses" "j < length losses"
    for run :: "int list list \<times> nat list \<times> int list list \<Rightarrow> 'l"
      and all_idxs input_seq output_seq losses j
  proof -
    let ?offs = "map (\<lambda>j. j * 128) [0..<(length all_idxs + 127) div 128]"
    from batch_loop_each [OF that(1) [unfolded train_epoch_def]] obtain rs where
      rs: "losses = [] @ rs" "length rs = length ?offs"
        "\<forall>j<length ?offs. \<exists>d l b.
          np_index input_seq (take 128 (drop (?offs ! j) all_idxs)) = Inr d \<and>
          np_index output_seq (take 128 (drop (?offs ! j) all_idxs)) = Inr l \<and>
          padDataBatch d l = Inr b \<and> rs ! j = run b"
      by blast
    have j: "j < length ?offs" using that(2) rs(1,2) by simp
    then have o: "?offs ! j = j * 128" by simp
    from rs(3) [rule_format, OF j] obtain d l b where
      dlb: "np_index input_seq (take 128 (drop (?offs ! j) all_idxs)) = Inr d"
        "np_index output_seq (take 128 (drop (?offs ! j) all_idxs)) = Inr l"
        "padDataBatch d l = Inr b" "rs ! j = run b"
      by blast
    note inv = padDataBatch_Inr_D [OF dlb(3), THEN conjunct2]
    have lj: "losses ! j = run b" using dlb(4) rs(1) by simp
    show ?thesis
      by (intro exI [of _ d] exI [of _ l] exI [of _ b] conjI
          dlb(1) [unfolded o] dlb(2) [unfolded o] dlb(3) lj inv)
  qed
  have l1: "length (map ?pad data) = length data" and l2: "length (map ?pad labels) = length labels"
    by simp_all
  show ?thesis
    by (intro exI [of _ "map ?pad data"] exI [of _ "map ?pad labels"] conjI run l1 l2 x y w)
      (use ep in blast)
qed

theorem padDataBatch_pads_batch_witness:
  "[[1, 3, 4], [1, 5 :: int]] \<noteq> [] \<and>
   padDataBatch [[1, 3, 4], [1, 5]] [[3, 4, 2], [5, 2]] =
     Inr ([[1, 3, 4], [1, 5, 0]], [3, 2], [[3, 4, 2], [5, 2, 0]])"
proof -
  have m: "Max (set (map length [[1, 3, 4], [1, 5 :: int]])) = 3" by simp
  have h1: "\<forall>u\<in>set [[1, 3, 4], [1, 5 :: int]]. \<forall>c\<in>set u.
        - 9223372036854775808 \<le> c \<and> c < 9223372036854775808 \<and>
        - 97 \<le> wrap_int32 c \<and> wrap_int32 c < 97"
    by (simp add: wrap_int32_def)
  have h2: "\<forall>u\<in>set [[3, 4, 2], [5, 2 :: int]].
        length u \<le> Max (set (map length [[1, 3, 4], [1, 5 :: int]])) \<and>
        (\<forall>c\<in>set u. - 9223372036854775808 \<le> c \<and> c < 9223372036854775808)"
    by simp
  from padDataBatch_pads_batch [OF _ h1 h2]
  obtain x y where
    r: "padDataBatch [[1, 3, 4], [1, 5]] [[3, 4, 2], [5, 2]] =
          Inr (x, map length [[1, 3, 4], [1, 5 :: int]], y)"
      "length x = 2" "length y = 2"
      "\<forall>i<2. x ! i = map wrap_int32 ([[1, 3, 4], [1, 5]] ! i) @
          replicate (3 - length ([[1, 3, 4], [1, 5 :: int]] ! i)) 0"
      "\<forall>i<2. y ! i = map wrap_int32 ([[3, 4, 2], [5, 2]] ! i) @
          replicate (3 - length ([[3, 4, 2], [5, 2 :: int]] ! i)) 0"
    unfolding m by auto
  have "x = [[1, 3, 4], [1, 5, 0]]"
    using r(2) r(4) [rule_format, of 0] r(4) [rule_format, of 1]
    by (intro nth_equalityI)
      (auto simp: less_Suc_eq numeral_2_eq_2 numeral_3_eq_3 wrap_int32_def)
  moreover have "y = [[3, 4, 2], [5, 2, 0]]"
    using r(3) r(5) [rule_format, of 0] r(5) [rule_format, of 1]
    by (intro nth_equalityI)
      (auto simp: less_Suc_eq numeral_2_eq_2 numeral_3_eq_3 wrap_int32_def)
  ultimately show ?thesis using r(1) by simp
qed


text \<open>
  A batch that holds the code 97 is rejected by the \<^verbatim>\<open>to_categorical\<close> call, and a
  label that does not fit in 32 bits is not returned as it is: 4294967298 comes back
  as 2.
\<close>

theorem padDataBatch_counterexample:
  "padDataBatch [[1, 97]] [[97, 2]] = Inl IndexError \<and>
   padDataBatch [[1, 2]] [[4294967298, 5]] = Inr ([[1, 2]], [2], [[2, 5]])"
  by (simp add: padDataBatch_def np_pad_after_def to_categorical_def one_hot_def
      as_int32_def wrap_int32_def)

text \<open>
  C9, as the code has it. For a vocabulary built from any corpus, a window width of at
  least 1, a seed text of vocabulary characters and any model that never selects
  class 0, the class of the three-character key \<^verbatim>\<open>'PAD'\<close>, the loop of
  \<^verbatim>\<open>generate_seq\<close> runs exactly \<^verbatim>\<open>n_chars\<close> times and each pass appends one key of
  the vocabulary that is a single character: the call returns the seed followed by
  \<^verbatim>\<open>n_chars\<close> characters, a string of length \<^verbatim>\<open>len(seed_text) + n_chars\<close>.
\<close>

theorem generate_seq_appends_chars:
  assumes "list_of_set chars (corpus_text jokes)"
    and "0 < W"
    and "\<forall>c\<in>set seed_text. [c] \<in> fst ` set (char_labels chars)"
    and "\<forall>w. model w \<noteq> 0"
  shows "\<exists>ks. length ks = n_chars \<and>
      (\<forall>key\<in>set ks. key \<in> fst ` set (char_labels chars) \<and> length key = 1) \<and>
      generate_seq model (char_labels chars) W seed_text n_chars =
        Inr (seed_text @ concat ks) \<and>
      length (concat ks) = n_chars \<and>
      length (seed_text @ concat ks) = length seed_text + n_chars"
proof -
  note ok = list_of_set_clean [OF assms(1)]
  let ?m = "char_labels chars"
  have len: "length ?m = length chars + 3"
    using arg_cong [OF char_labels_keys [OF ok], of length] by simp
  have "fst ` set ?m = set (map fst ?m)" by simp
  also have "\<dots> = (\<lambda>c. [c]) ` set chars \<union> {''PAD'', ''~'', ''^''}"
    unfolding char_labels_keys [OF ok] by auto
  finally have keys: "fst ` set ?m = (\<lambda>c. [c]) ` set chars \<union> {''PAD'', ''~'', ''^''}" .
  have single: "length key = 1" if "key \<in> fst ` set ?m - {''PAD''}" for key
  proof -
    from that have "key \<in> (\<lambda>c. [c]) ` set chars \<or> key = ''~'' \<or> key = ''^''"
      unfolding keys by blast
    then show ?thesis by auto
  qed
  have "snd ` set ?m = set (map snd ?m)" by simp
  also have "\<dots> = {0..<int (length chars) + 3}"
    unfolding char_labels_codes [OF ok] by (rule codes_range)
  finally have codes: "snd ` set ?m = {0..<int (length chars) + 3}" .
  have hat: "''^'' \<in> fst ` set ?m - {''PAD''}"
  proof -
    have "''^'' \<in> set (map fst ?m)" unfolding char_labels_keys [OF ok] by simp
    then show ?thesis by simp
  qed
  have "key \<in> fst ` set ?m - {''PAD''}"
    if key: "lookup_loop ?m (model w) ([], ch) = (oc, Some key)" for w oc key ch
  proof (cases "model w \<in> snd ` set ?m")
    case True
    from lookup_loop_found [OF True, of "[]" ch] key
    have mem: "(key, model w) \<in> set ?m" by auto
    have dk: "distinct (map fst ?m)" by (rule char_labels_distinct_keys [OF ok])
    have "(''PAD'', 0) \<in> set ?m" by (simp add: char_labels_set [OF ok])
    from dict_get_member [OF dk this] dict_get_member [OF dk mem]
    have "key \<noteq> ''PAD''" using assms(4) [rule_format, of w] by auto
    moreover from mem have "key \<in> fst ` set ?m" by (rule image_eqI [rotated]) simp
    ultimately show ?thesis by simp
  next
    case False
    from lookup_loop_missing [OF False char_labels_nonempty, of "[]" ch] key hat
    show ?thesis by (simp add: char_labels_last [OF ok])
  qed
  then have pick: "\<forall>w oc key ch.
      lookup_loop ?m (model w) ([], ch) = (oc, Some key) \<longrightarrow> key \<in> fst ` set ?m - {''PAD''}"
    by blast
  from generate_loop_keys [where n = n_chars and ch = None and model = model,
      OF assms(2) char_labels_nonempty char_labels_one_hot_range [OF ok]
        char_labels_closed_chars [OF ok] pick assms(3)]
  obtain ks ch' where ks: "length ks = n_chars" "set ks \<subseteq> fst ` set ?m - {''PAD''}"
    "generate_loop model ?m W n_chars (seed_text, None) = Inr (seed_text @ concat ks, ch')"
    by blast
  have res: "generate_seq model ?m W seed_text n_chars = Inr (seed_text @ concat ks)"
    by (simp add: generate_seq_def ks(3))
  have each: "\<forall>key\<in>set ks. key \<in> fst ` set ?m \<and> length key = 1"
    using ks(2) single by blast
  then have "\<forall>k\<in>set ks. length k = 1" by blast
  from concat_singletons [OF this] ks(1) have cl: "length (concat ks) = n_chars" by simp
  then have tl: "length (seed_text @ concat ks) = length seed_text + n_chars" by simp
  show ?thesis
    by (intro exI [of _ ks] conjI ks(1) each res cl tl)
qed

theorem generate_seq_appends_chars_witness:
  "list_of_set ''a'' (corpus_text [''a^'']) \<and> (0::nat) < 2 \<and>
   generate_seq (\<lambda>w. 3) (char_labels ''a'') 2 ''a'' 3 = Inr ''aaaa'' \<and>
   length ''aaaa'' = length ''a'' + 3"
proof -
  have h: "list_of_set ''a'' (corpus_text [''a^''])"
    by (simp add: list_of_set_def corpus_text_def cleaned_jokes_def removeChars_def
        replace_empty_def)
  have s: "\<forall>c\<in>set ''a''. [c] \<in> fst ` set (char_labels ''a'')"
    by (simp add: char_labels_def char_labels_init_def)
  have m: "\<forall>w::int list list. (3::int) \<noteq> 0" by simp
  from generate_seq_appends_chars [OF h _ s m, of 2 3]
  obtain ks where
    k: "generate_seq (\<lambda>w. 3) (char_labels ''a'') 2 ''a'' 3 = Inr (''a'' @ concat ks)"
      "length (''a'' @ concat ks) = length ''a'' + 3"
    by auto
  have r: "generate_seq (\<lambda>w. 3) (char_labels ''a'') 2 ''a'' 3 = Inr ''aaaa''"
    by code_simp
  have "Inr (''a'' @ concat ks) = (Inr ''aaaa'' :: error + string)"
    by (rule trans [OF k(1) [symmetric] r])
  then have eq: "''a'' @ concat ks = ''aaaa''" by (simp only: sum.inject)
  have l: "length ''aaaa'' = length ''a'' + 3" using k(2) unfolding eq .
  have p: "(0::nat) < 2" by simp
  show ?thesis by (intro conjI h p r l)
qed

text \<open>
  With the vocabulary of the corpus \<^verbatim>\<open>"PAD"\<close> and a model that always selects class 0,
  two passes append the key \<^verbatim>\<open>'PAD'\<close> twice: six characters, not two.
\<close>

theorem generate_seq_length_counterexample:
  "''A'' \<in> fst ` set (char_labels ''PAD'') \<and>
   generate_seq (\<lambda>w. 0) (char_labels ''PAD'') 2 ''A'' 2 = Inr ''APADPAD'' \<and>
   length ''APADPAD'' \<noteq> length ''A'' + 2"
proof -
  have "generate_seq (\<lambda>w. 0) (char_labels ''PAD'') 2 ''A'' 2 = Inr ''APADPAD''"
    by code_simp
  moreover have "''A'' \<in> fst ` set (char_labels ''PAD'')"
    by (simp add: char_labels_def char_labels_init_def)
  ultimately show ?thesis by simp
qed

text \<open>
  C10. Code 0 is keyed by the three-character string \<^verbatim>\<open>'PAD'\<close>: no single character
  encodes to 0, code 0 decodes to \<^verbatim>\<open>'PAD'\<close>, and in both tables the codes 0, 1 and 2
  belong to \<^verbatim>\<open>'PAD'\<close>, \<^verbatim>\<open>'~'\<close> and \<^verbatim>\<open>'^'\<close> and to no other key.
\<close>

theorem pad_key_reserved:
  assumes "list_of_set chars (corpus_text jokes)"
  shows "dict_get (char_labels chars) ''PAD'' = Inr 0 \<and>
     length ''PAD'' = 3 \<and>
     (\<forall>c. dict_get (char_labels chars) [c] \<noteq> Inr 0) \<and>
     dict_get (labels_char chars) 0 = Inr ''PAD'' \<and>
     dict_get (labels_char chars) 1 = Inr ''~'' \<and>
     dict_get (labels_char chars) 2 = Inr ''^'' \<and>
     (\<forall>(key, k)\<in>set (char_labels chars).
        (k = 0 \<longleftrightarrow> key = ''PAD'') \<and> (k = 1 \<longleftrightarrow> key = ''~'') \<and> (k = 2 \<longleftrightarrow> key = ''^'')) \<and>
     (\<forall>(k, key)\<in>set (labels_char chars).
        (k = 0 \<longleftrightarrow> key = ''PAD'') \<and> (k = 1 \<longleftrightarrow> key = ''~'') \<and> (k = 2 \<longleftrightarrow> key = ''^''))"
proof -
  note ok = list_of_set_clean [OF assms]
  have dk: "distinct (map fst (char_labels chars))"
    by (rule char_labels_distinct_keys [OF ok])
  have pad: "dict_get (char_labels chars) ''PAD'' = Inr 0"
    by (rule dict_get_member [OF dk]) (simp add: char_labels_set [OF ok])
  have nochar: "dict_get (char_labels chars) [c] \<noteq> Inr 0" for c
  proof
    assume "dict_get (char_labels chars) [c] = Inr 0"
    from dict_get_Inr [OF this] show False by (auto simp: char_labels_set [OF ok])
  qed
  have rev: "dict_get (labels_char chars) 0 = Inr ''PAD''"
    "dict_get (labels_char chars) 1 = Inr ''~''"
    "dict_get (labels_char chars) 2 = Inr ''^''"
    by (rule dict_get_member [OF labels_char_distinct_keys], simp add: labels_char_set)+
  have nth: "chars ! j \<noteq> CHR ''~''" "chars ! j \<noteq> CHR ''^''" if "j < length chars" for j
    using ok(2,3) that by (metis nth_mem)+
  have fwd: "(k = 0 \<longleftrightarrow> key = ''PAD'') \<and> (k = 1 \<longleftrightarrow> key = ''~'') \<and> (k = 2 \<longleftrightarrow> key = ''^'')"
    if "(key, k) \<in> set (char_labels chars)" for key k
    using that nth by (auto simp: char_labels_set [OF ok])
  have bwd: "(k = 0 \<longleftrightarrow> key = ''PAD'') \<and> (k = 1 \<longleftrightarrow> key = ''~'') \<and> (k = 2 \<longleftrightarrow> key = ''^'')"
    if "(k, key) \<in> set (labels_char chars)" for key k
    using that nth by (auto simp: labels_char_set)
  have f: "\<forall>(key, k)\<in>set (char_labels chars).
        (k = 0 \<longleftrightarrow> key = ''PAD'') \<and> (k = 1 \<longleftrightarrow> key = ''~'') \<and> (k = 2 \<longleftrightarrow> key = ''^'')"
  proof (intro ballI)
    fix p assume p: "p \<in> set (char_labels chars)"
    obtain key k where "p = (key, k)" by (cases p)
    with fwd [of key k] p show "case p of (key, k) \<Rightarrow>
        (k = 0 \<longleftrightarrow> key = ''PAD'') \<and> (k = 1 \<longleftrightarrow> key = ''~'') \<and> (k = 2 \<longleftrightarrow> key = ''^'')"
      by simp
  qed
  have b: "\<forall>(k, key)\<in>set (labels_char chars).
        (k = 0 \<longleftrightarrow> key = ''PAD'') \<and> (k = 1 \<longleftrightarrow> key = ''~'') \<and> (k = 2 \<longleftrightarrow> key = ''^'')"
  proof (intro ballI)
    fix p assume p: "p \<in> set (labels_char chars)"
    obtain k key where "p = (k, key)" by (cases p)
    with bwd [of k key] p show "case p of (k, key) \<Rightarrow>
        (k = 0 \<longleftrightarrow> key = ''PAD'') \<and> (k = 1 \<longleftrightarrow> key = ''~'') \<and> (k = 2 \<longleftrightarrow> key = ''^'')"
      by simp
  qed
  have n: "\<forall>c. dict_get (char_labels chars) [c] \<noteq> Inr 0" using nochar by blast
  show ?thesis
    by (intro conjI pad rev f b n) simp
qed

theorem pad_key_reserved_witness:
  "list_of_set [CHR ''b'', CHR 0x0A, CHR ''a''] (corpus_text [''a~b'', ''^ab'']) \<and>
   dict_get (char_labels [CHR ''b'', CHR 0x0A, CHR ''a'']) ''PAD'' = Inr 0 \<and>
   dict_get (labels_char [CHR ''b'', CHR 0x0A, CHR ''a'']) 0 = Inr ''PAD'' \<and>
   dict_get (char_labels [CHR ''b'', CHR 0x0A, CHR ''a'']) ''b'' = Inr 3"
proof -
  have h: "list_of_set [CHR ''b'', CHR 0x0A, CHR ''a''] (corpus_text [''a~b'', ''^ab''])"
    by (auto simp: list_of_set_def corpus_text_def cleaned_jokes_def removeChars_def
        replace_empty_def)
  note r = pad_key_reserved [OF h]
  have "dict_get (char_labels [CHR ''b'', CHR 0x0A, CHR ''a'']) ''b'' = Inr 3"
    by (simp add: char_labels_def char_labels_init_def)
  then show ?thesis
    using h r [THEN conjunct1] r [THEN conjunct2, THEN conjunct2, THEN conjunct2, THEN conjunct1]
    by simp
qed

end
